theory Spec2Isabelle
  imports Complex_Main
begin

section \<open>Data model\<close>

text \<open>
  Times are Python floats counting seconds. They are modelled as exact rationals: every
  finite float is a rational, comparisons are the same, and the rounding of the few
  additions and subtractions of \<open>analysis_window\<close> is not modelled.
\<close>

type_synonym seconds = rat

text \<open>An audio event of the detector: \<open>(r.start, r.end)\<close>. A silence segment is the tuple
  \<open>(start, end)\<close> appended to \<open>silence_segments\<close>.\<close>

type_synonym audio_event = "seconds \<times> seconds"
type_synonym silence_segment = "seconds \<times> seconds"

text \<open>The dictionary built by \<open>parse_srt\<close> for one subtitle record.\<close>

record srt_segment =
  index_of :: nat
  start_time :: seconds
  end_time :: seconds
  text_of :: string

datatype error =
    Invalid_time_format string
  | Invalid_segment seconds seconds

section \<open>\<open>time_to_seconds\<close>\<close>

text \<open>
  Strings are lists of 8-bit characters; in that range the class \<open>\d\<close> of the regular
  expression is exactly the ten ASCII digits.
\<close>

definition is_digit :: "char \<Rightarrow> bool" where
  "is_digit c \<longleftrightarrow> (48::nat) \<le> of_char c \<and> of_char c \<le> (57::nat)"

definition digit_val :: "char \<Rightarrow> nat" where
  "digit_val c = of_char c - 48"

text \<open>Python's \<open>int(s)\<close> on a string of decimal digits.\<close>

definition int_of_digits :: "string \<Rightarrow> nat" where
  "int_of_digits s = foldl (\<lambda>a c. 10 * a + digit_val c) 0 s"

text \<open>
  The tail \<open>:(\d{2}):(\d{2})[,.](\d+)\<close> of the pattern, matched at the head of the string.
  The last group is greedy: it takes every digit that follows. The result is the groups
  \<open>(minutes, seconds, ms_str)\<close>.
\<close>

fun match_tail :: "string \<Rightarrow> (string \<times> string \<times> string) option" where
  "match_tail (c1 # m1 # m2 # c2 # s1 # s2 # sep # d # rest) =
     (if c1 = CHR '':'' \<and> is_digit m1 \<and> is_digit m2 \<and> c2 = CHR '':'' \<and>
         is_digit s1 \<and> is_digit s2 \<and> (sep = CHR '','' \<or> sep = CHR ''.'') \<and> is_digit d
      then Some ([m1, m2], [s1, s2], takeWhile is_digit (d # rest))
      else None)"
| "match_tail _ = None"

text \<open>The group \<open>(\d{1,2})\<close> with \<open>n\<close> digits, followed by the tail.\<close>

definition match_hours :: "nat \<Rightarrow> string \<Rightarrow> (string \<times> string \<times> string \<times> string) option" where
  "match_hours n s =
     (if n \<le> length s \<and> list_all is_digit (take n s)
      then map_option (\<lambda>(m, sec, ms). (take n s, m, sec, ms)) (match_tail (drop n s))
      else None)"

text \<open>
  \<open>re.match\<close> anchors the pattern at the start of the string only. \<open>\d{1,2}\<close> is greedy:
  two digits are tried first, then one.
\<close>

definition re_match :: "string \<Rightarrow> (string \<times> string \<times> string \<times> string) option" where
  "re_match s = (case match_hours 2 s of Some g \<Rightarrow> Some g | None \<Rightarrow> match_hours 1 s)"

text \<open>\<open>ms_str.ljust(3, '0')[:3]\<close>\<close>

definition ljust3 :: "string \<Rightarrow> string" where
  "ljust3 ms_str = take 3 (ms_str @ replicate (3 - length ms_str) (CHR ''0''))"

definition time_to_seconds :: "string \<Rightarrow> error + seconds" where
  "time_to_seconds time_str =
     (case re_match time_str of
        None \<Rightarrow> Inl (Invalid_time_format time_str)
      | Some (hours, minutes, secs, ms_str) \<Rightarrow>
          (let ms = int_of_digits (ljust3 ms_str)
           in Inr (of_nat (int_of_digits hours) * 3600 + of_nat (int_of_digits minutes) * 60
                   + of_nat (int_of_digits secs) + of_nat ms / 1000)))"

section \<open>Silence segments from audio events\<close>

definition analysis_window :: seconds where
  "analysis_window = 1 / 100"

text \<open>
  The loop over \<open>audio_events\<close> in \<open>main\<close>, with the cursor \<open>cur_pos\<close> as an argument. With
  \<open>negate\<close> the events themselves are reported and nothing is appended to
  \<open>silence_segments\<close>. The cursor moves to \<open>r.end\<close> before the candidate is tested.
\<close>

fun silence_loop :: "bool \<Rightarrow> seconds \<Rightarrow> seconds \<Rightarrow> seconds \<Rightarrow> audio_event list \<Rightarrow> silence_segment list" where
  "silence_loop negate aw min_silence_dur cur_pos [] = []"
| "silence_loop negate aw min_silence_dur cur_pos ((r_start, r_end) # rs) =
     (if negate then silence_loop negate aw min_silence_dur cur_pos rs
      else
        (let start0 = cur_pos;
             end0 = r_start;
             cur_pos' = r_end;
             start1 = start0 + (if start0 > 0 then aw else 0);
             end1 = end0 - aw
         in if end1 - start1 < min_silence_dur
            then silence_loop negate aw min_silence_dur cur_pos' rs
            else (start1, end1) # silence_loop negate aw min_silence_dur cur_pos' rs))"

definition silence_segments :: "bool \<Rightarrow> seconds \<Rightarrow> audio_event list \<Rightarrow> silence_segment list" where
  "silence_segments negate min_silence_dur audio_events =
     silence_loop negate analysis_window min_silence_dur 0 audio_events"

section \<open>Subtract-only mode\<close>

text \<open>
  Both \<open>while\<close> loops of the subtract-only branch have the same shape:
  \<open>while index < len(silence_segments) and silence_segments[index][1] < bound: index += 1\<close>.
\<close>

function skip_silence :: "silence_segment list \<Rightarrow> seconds \<Rightarrow> nat \<Rightarrow> nat" where
  "skip_silence sil bound index =
     (if index < length sil \<and> snd (sil ! index) < bound
      then skip_silence sil bound (index + 1)
      else index)"
  by pat_completeness auto
termination
  by (relation "measure (\<lambda>(sil, bound, index). length sil - index)") auto

declare skip_silence.simps [simp del]

text \<open>
  The body of \<open>for s in segments\<close>: the pointer \<open>index\<close> goes in and comes out, the record
  that is written carries the corrected \<open>start\<close> and \<open>end\<close> with the index and text of \<open>s\<close>.
  The rendering of the times by \<open>seconds_to_srt_time\<close> belongs to the writer and is not
  part of the record.
\<close>

definition subtract_segment :: "silence_segment list \<Rightarrow> nat \<Rightarrow> srt_segment \<Rightarrow> nat \<times> srt_segment" where
  "subtract_segment sil index0 s =
     (let start0 = start_time s;
          end0 = end_time s;
          index1 = skip_silence sil start0 index0;
          start1 =
            (if index1 < length sil then
               (let (silence_start, silence_end) = sil ! index1
                in if silence_start < start0 \<and> start0 < silence_end \<and> silence_end < end0
                   then silence_end else start0)
             else start0);
          index2 = skip_silence sil end0 index1;
          end1 =
            (if index2 < length sil then
               (let (silence_start, silence_end) = sil ! index2
                in if silence_start > start1 \<and> end0 < silence_end \<and> silence_start < end0
                   then silence_start else end0)
             else end0)
      in (index2, s\<lparr>start_time := start1, end_time := end1\<rparr>))"

fun subtract_loop :: "silence_segment list \<Rightarrow> nat \<Rightarrow> srt_segment list \<Rightarrow> srt_segment list" where
  "subtract_loop sil index [] = []"
| "subtract_loop sil index (s # segments) =
     (let (index', s') = subtract_segment sil index s
      in s' # subtract_loop sil index' segments)"

text \<open>With no parsed segment the branch returns before it writes anything.\<close>

definition subtract_only :: "silence_segment list \<Rightarrow> srt_segment list \<Rightarrow> srt_segment list" where
  "subtract_only sil segments = (if segments = [] then [] else subtract_loop sil 0 segments)"

section \<open>Expand/subtract mode\<close>

text \<open>
  An element of \<open>full_list\<close>: a dictionary with the keys \<open>start\<close>, \<open>end\<close>, \<open>text\<close>, \<open>index\<close> and
  \<open>kind = 'segment'\<close>, or with the keys \<open>start\<close>, \<open>end\<close> and \<open>kind = 'silence'\<close>.
\<close>

datatype kind = segment | silence

datatype entry =
    Segment_entry seconds seconds string nat
  | Silence_entry seconds seconds

fun entry_start :: "entry \<Rightarrow> seconds" where
  "entry_start (Segment_entry st en txt idx) = st"
| "entry_start (Silence_entry st en) = st"

fun entry_end :: "entry \<Rightarrow> seconds" where
  "entry_end (Segment_entry st en txt idx) = en"
| "entry_end (Silence_entry st en) = en"

fun entry_kind :: "entry \<Rightarrow> kind" where
  "entry_kind (Segment_entry st en txt idx) = segment"
| "entry_kind (Silence_entry st en) = silence"

fun set_start :: "seconds \<Rightarrow> entry \<Rightarrow> entry" where
  "set_start v (Segment_entry st en txt idx) = Segment_entry v en txt idx"
| "set_start v (Silence_entry st en) = Silence_entry v en"

fun set_end :: "seconds \<Rightarrow> entry \<Rightarrow> entry" where
  "set_end v (Segment_entry st en txt idx) = Segment_entry st v txt idx"
| "set_end v (Silence_entry st en) = Silence_entry st v"

text \<open>The record written for a subtitle entry: \<open>s['index']\<close>, the two times, \<open>s['text']\<close>.\<close>

fun written_record :: "entry \<Rightarrow> srt_segment" where
  "written_record (Segment_entry st en txt idx) =
     \<lparr>index_of = idx, start_time = st, end_time = en, text_of = txt\<rparr>"
| "written_record (Silence_entry st en) =
     \<lparr>index_of = 0, start_time = st, end_time = en, text_of = []\<rparr>"

definition segment_entry :: "srt_segment \<Rightarrow> entry" where
  "segment_entry s = Segment_entry (start_time s) (end_time s) (text_of s) (index_of s)"

definition silence_entry :: "silence_segment \<Rightarrow> entry" where
  "silence_entry s = Silence_entry (fst s) (snd s)"

text \<open>
  The subtitle entries are appended first, the silence entries after them, and
  \<open>full_list.sort(key=lambda x: x['start'])\<close> is a stable sort, as \<open>sort_key\<close> is.
\<close>

definition merge_timeline :: "srt_segment list \<Rightarrow> silence_segment list \<Rightarrow> entry list" where
  "merge_timeline segments sil =
     sort_key entry_start (map segment_entry segments @ map silence_entry sil)"

text \<open>
  The two boundary assignments of the subtitle branch at position \<open>index\<close>. The test
  \<open>index - 1 >= 0\<close> on Python integers is \<open>1 \<le> index\<close>.
\<close>

definition adjust :: "entry list \<Rightarrow> nat \<Rightarrow> entry" where
  "adjust fl index =
     (let s = fl ! index;
          s1 = (if 1 \<le> index \<and> entry_kind (fl ! (index - 1)) = silence
                   \<and> entry_end (fl ! (index - 1)) < entry_end s
                then set_start (entry_end (fl ! (index - 1))) s else s);
          s2 = (if index + 1 < length fl \<and> entry_kind (fl ! (index + 1)) = silence
                then set_end (entry_start (fl ! (index + 1))) s1 else s1)
      in s2)"

text \<open>
  What the walk needs of its surroundings: whether \<open>args.non_speech_dir\<close> is set, whether
  the audio could be loaded for clip extraction, and whether slicing and saving the clip
  numbered \<open>non_speech_file_counter\<close> succeeds (an exception there is caught and logged).
\<close>

record ns_env =
  non_speech_dir :: bool
  loaded_audio_for_ns :: bool
  save_ok :: "nat \<Rightarrow> seconds \<Rightarrow> seconds \<Rightarrow> bool"

record walk_state =
  full_list :: "entry list"
  written :: "srt_segment list"
  non_speech_srt_entries :: "srt_segment list"
  non_speech_file_counter :: nat

text \<open>Python's \<open>str\<close> of a non-negative integer.\<close>

fun str_nat :: "nat \<Rightarrow> string" where
  "str_nat n =
     (if n < 10 then [char_of (48 + n)]
      else str_nat (n div 10) @ [char_of (48 + n mod 10)])"

declare str_nat.simps [simp del]

definition asr_text :: "entry \<Rightarrow> string" where
  "asr_text e = (case e of
       Segment_entry st en txt idx \<Rightarrow> str_nat idx @ '' '' @ txt
     | Silence_entry st en \<Rightarrow> [])"

definition srt_text :: "entry list \<Rightarrow> nat \<Rightarrow> string" where
  "srt_text fl index =
     (let prev_asr_idx_text =
            (case find (\<lambda>e. entry_kind e = segment) (rev (take index fl)) of
               Some e \<Rightarrow> asr_text e | None \<Rightarrow> ''start of audio'');
          next_asr_idx_text =
            (case find (\<lambda>e. entry_kind e = segment) (drop (index + 2) fl) of
               Some e \<Rightarrow> asr_text e | None \<Rightarrow> ''end of audio'')
      in ''Non-speech segment detected between segment '' @ [CHR 0x27] @ prev_asr_idx_text
         @ [CHR 0x27] @ '' and segment '' @ [CHR 0x27] @ next_asr_idx_text @ [CHR 0x27] @ ''.'')"

text \<open>The subtitle branch: adjust in place, raise on \<open>start > end\<close>, otherwise write.\<close>

definition step_segment :: "nat \<Rightarrow> walk_state \<Rightarrow> error option \<times> walk_state" where
  "step_segment index st =
     (let s = adjust (full_list st) index;
          st' = st\<lparr>full_list := (full_list st)[index := s]\<rparr>
      in if entry_start s > entry_end s
         then (Some (Invalid_segment (entry_start s) (entry_end s)), st')
         else (None, st'\<lparr>written := written st' @ [written_record s]\<rparr>))"

text \<open>The silence branch: two silence entries in a row flag the audio between them.\<close>

definition step_silence :: "ns_env \<Rightarrow> nat \<Rightarrow> walk_state \<Rightarrow> walk_state" where
  "step_silence env index st =
     (let fl = full_list st; s = fl ! index
      in if index + 1 < length fl \<and> entry_kind (fl ! (index + 1)) = silence then
           (let ns_start_time = entry_end s + analysis_window;
                ns_end_time = entry_start (fl ! (index + 1)) - analysis_window
            in if ns_end_time > ns_start_time then
                 (if non_speech_dir env \<and> loaded_audio_for_ns env then
                    (if save_ok env (non_speech_file_counter st) ns_start_time ns_end_time then
                       st\<lparr>non_speech_srt_entries := non_speech_srt_entries st @
                            [\<lparr>index_of = non_speech_file_counter st, start_time = ns_start_time,
                              end_time = ns_end_time, text_of = srt_text fl index\<rparr>],
                          non_speech_file_counter := non_speech_file_counter st + 1\<rparr>
                     else st)
                  else st)
               else st)
         else st)"

definition step :: "ns_env \<Rightarrow> nat \<Rightarrow> walk_state \<Rightarrow> error option \<times> walk_state" where
  "step env index st =
     (if entry_kind (full_list st ! index) = segment then step_segment index st
      else (None, step_silence env index st))"

text \<open>
  \<open>while index < len(full_list)\<close>. A raised error ends the walk; the state it leaves behind
  holds what had been written before.
\<close>

function walk :: "ns_env \<Rightarrow> nat \<Rightarrow> walk_state \<Rightarrow> error option \<times> walk_state" where
  "walk env index st =
     (if index < length (full_list st) then
        (case step env index st of
           (Some e, st') \<Rightarrow> (Some e, st')
         | (None, st') \<Rightarrow> walk env (index + 1) st')
      else (None, st))"
  by pat_completeness auto
termination
  by (relation "measure (\<lambda>(env, index, st). length (full_list st) - index)")
     (auto simp: step_def step_segment_def step_silence_def Let_def split: if_splits)

declare walk.simps [simp del]

text \<open>The branch for \<open>subtract_only = False\<close>; with no parsed segment it returns at once.\<close>

definition expand_subtract :: "ns_env \<Rightarrow> silence_segment list \<Rightarrow> srt_segment list \<Rightarrow> error option \<times> walk_state" where
  "expand_subtract env sil segments =
     (if segments = []
      then (None, \<lparr>full_list = [], written = [], non_speech_srt_entries = [],
                   non_speech_file_counter = 1\<rparr>)
      else walk env 0 \<lparr>full_list = merge_timeline segments sil, written = [],
                       non_speech_srt_entries = [], non_speech_file_counter = 1\<rparr>)"

section \<open>Predicates used to state the properties\<close>

text \<open>
  The detector's promise about its output: every event has \<open>0 \<le> start < end\<close>, and the
  events are in order and do not overlap.
\<close>

definition events_ok :: "audio_event list \<Rightarrow> bool" where
  "events_ok evs \<longleftrightarrow>
     list_all (\<lambda>(s, e). 0 \<le> s \<and> s < e) evs \<and> sorted_wrt (\<lambda>a b. snd a \<le> fst b) evs"

text \<open>
  The parts of a timestamp \<open>H:MM:SS\<close> or \<open>HH:MM:SS\<close>, a comma or dot, and one or more
  digits; and the string they make.
\<close>

definition well_formed :: "string \<Rightarrow> string \<Rightarrow> string \<Rightarrow> char \<Rightarrow> string \<Rightarrow> bool" where
  "well_formed hours minutes secs sep ms_str \<longleftrightarrow>
     (length hours = 1 \<or> length hours = 2) \<and> list_all is_digit hours \<and>
     length minutes = 2 \<and> list_all is_digit minutes \<and>
     length secs = 2 \<and> list_all is_digit secs \<and>
     (sep = CHR '','' \<or> sep = CHR ''.'') \<and>
     ms_str \<noteq> [] \<and> list_all is_digit ms_str"

definition timestamp :: "string \<Rightarrow> string \<Rightarrow> string \<Rightarrow> char \<Rightarrow> string \<Rightarrow> string" where
  "timestamp hours minutes secs sep ms_str =
     hours @ '':'' @ minutes @ '':'' @ secs @ [sep] @ ms_str"

text \<open>The same shape as a test on a whole string.\<close>

fun shape_tail :: "string \<Rightarrow> bool" where
  "shape_tail (c1 # m1 # m2 # c2 # s1 # s2 # sep # d # ds) \<longleftrightarrow>
     c1 = CHR '':'' \<and> is_digit m1 \<and> is_digit m2 \<and> c2 = CHR '':'' \<and>
     is_digit s1 \<and> is_digit s2 \<and> (sep = CHR '','' \<or> sep = CHR ''.'') \<and>
     is_digit d \<and> list_all is_digit ds"
| "shape_tail _ \<longleftrightarrow> False"

definition timestamp_shape :: "string \<Rightarrow> bool" where
  "timestamp_shape s \<longleftrightarrow>
     (case s of
        [] \<Rightarrow> False
      | h1 # t \<Rightarrow> is_digit h1 \<and>
          (shape_tail t \<or> (case t of [] \<Rightarrow> False | h2 # t' \<Rightarrow> is_digit h2 \<and> shape_tail t')))"

text \<open>
  A corrected subtitle record \<open>s'\<close> against the original \<open>s\<close>: same index and text, and
  the range only shrinks.
\<close>

definition shrunk :: "srt_segment \<Rightarrow> srt_segment \<Rightarrow> bool" where
  "shrunk s s' \<longleftrightarrow>
     index_of s' = index_of s \<and> text_of s' = text_of s \<and>
     start_time s \<le> start_time s' \<and> end_time s' \<le> end_time s \<and>
     {start_time s' ..< end_time s'} \<subseteq> {start_time s ..< end_time s} \<and>
     (start_time s \<le> end_time s \<longrightarrow> start_time s' \<le> end_time s')"


text \<open>
  The walk of the expand/subtract mode, described without the loop: \<open>walked fl index\<close> is
  \<open>full_list\<close> once the positions below \<open>index\<close> have been visited, \<open>adjusted_ok\<close> says
  that the adjusted subtitle at a position passes the test \<open>start \<le> end\<close>, and
  \<open>written_between fl a b\<close> lists the records written for the positions from \<open>a\<close> up to
  \<open>b\<close>, not including \<open>b\<close>.
\<close>

definition walked :: "entry list \<Rightarrow> nat \<Rightarrow> entry list" where
  "walked fl index =
     map (\<lambda>j. if j < index \<and> entry_kind (fl ! j) = segment then adjust fl j else fl ! j)
       [0..<length fl]"

definition adjusted_ok :: "entry list \<Rightarrow> nat \<Rightarrow> bool" where
  "adjusted_ok fl k \<longleftrightarrow> entry_start (adjust fl k) \<le> entry_end (adjust fl k)"

definition written_between :: "entry list \<Rightarrow> nat \<Rightarrow> nat \<Rightarrow> srt_segment list" where
  "written_between fl a b =
     map (\<lambda>k. written_record (adjust fl k))
       (filter (\<lambda>k. entry_kind (fl ! k) = segment) [a..<b])"

text \<open>What a walk started at \<open>index\<close> on a walked state returns.\<close>

definition walk_post :: "entry list \<Rightarrow> nat \<Rightarrow> walk_state \<Rightarrow> error option \<times> walk_state \<Rightarrow> bool" where
  "walk_post fl index st r =
     (case r of
        (None, st') \<Rightarrow>
          (\<forall>k. index \<le> k \<and> k < length fl \<and> entry_kind (fl ! k) = segment \<longrightarrow> adjusted_ok fl k)
          \<and> written st' = written st @ written_between fl index (length fl)
          \<and> full_list st' = walked fl (length fl)
      | (Some e, st') \<Rightarrow>
          (\<exists>j. index \<le> j \<and> j < length fl \<and> entry_kind (fl ! j) = segment \<and> \<not> adjusted_ok fl j
             \<and> (\<forall>k. index \<le> k \<and> k < j \<and> entry_kind (fl ! k) = segment \<longrightarrow> adjusted_ok fl k)
             \<and> e = Invalid_segment (entry_start (adjust fl j)) (entry_end (adjust fl j))
             \<and> written st' = written st @ written_between fl index j
             \<and> full_list st' = walked fl (Suc j)))"


text \<open>
  The order of two entries of the merged timeline: by start, and at equal starts no
  silence entry before a subtitle entry.
\<close>

definition tie_order :: "entry \<Rightarrow> entry \<Rightarrow> bool" where
  "tie_order a b \<longleftrightarrow>
     entry_start a \<le> entry_start b \<and>
     (entry_start a = entry_start b \<and> entry_kind a = silence \<longrightarrow> entry_kind b = silence)"


text \<open>A run without \<open>--non-speech-dir\<close>.\<close>

definition no_ns_env :: ns_env where
  "no_ns_env = \<lparr>non_speech_dir = False, loaded_audio_for_ns = False, save_ok = (\<lambda>c a b. False)\<rparr>"


text \<open>
  The tolerance-adjusted ranges of the orphan regions of a merged timeline: one for each
  position from \<open>a\<close> up to \<open>b\<close>, not including \<open>b\<close>, that holds a silence entry
  followed at once by another silence entry. \<open>ns_view\<close> is the number and range of a
  non-speech entry. \<open>ns_env_ok\<close> is a run with a non-speech directory in which loading
  and saving succeed.
\<close>

definition orphan_ranges :: "entry list \<Rightarrow> nat \<Rightarrow> nat \<Rightarrow> (seconds \<times> seconds) list" where
  "orphan_ranges fl a b =
     map (\<lambda>i. (entry_end (fl ! i) + analysis_window, entry_start (fl ! (i + 1)) - analysis_window))
       (filter (\<lambda>i. entry_kind (fl ! i) = silence \<and> i + 1 < length fl
                   \<and> entry_kind (fl ! (i + 1)) = silence) [a..<b])"

definition ns_view :: "srt_segment \<Rightarrow> nat \<times> seconds \<times> seconds" where
  "ns_view e = (index_of e, start_time e, end_time e)"

definition ns_env_ok :: ns_env where
  "ns_env_ok = \<lparr>non_speech_dir = True, loaded_audio_for_ns = True, save_ok = (\<lambda>c a b. True)\<rparr>"


text \<open>
  Well-formed inputs of the reconciler. \<open>sil_ok\<close>: the silence segments have positive
  duration, are in order and do not overlap. \<open>segs_ok\<close>: the subtitles have
  \<open>start \<le> end\<close> and follow one another in time without overlap. \<open>ends_after\<close>: a
  silence that starts before the start of a subtitle ends before the end of that subtitle.
\<close>

definition sil_ok :: "silence_segment list \<Rightarrow> bool" where
  "sil_ok sil \<longleftrightarrow> list_all (\<lambda>s. fst s < snd s) sil \<and> sorted_wrt (\<lambda>a b. snd a \<le> fst b) sil"

definition segs_ok :: "srt_segment list \<Rightarrow> bool" where
  "segs_ok segs \<longleftrightarrow> list_all (\<lambda>s. start_time s \<le> end_time s) segs
      \<and> sorted_wrt (\<lambda>a b. end_time a \<le> start_time b) segs"

definition ends_after :: "silence_segment list \<Rightarrow> srt_segment list \<Rightarrow> bool" where
  "ends_after sil segs \<longleftrightarrow>
     list_all (\<lambda>s. list_all (\<lambda>a. fst a < start_time s \<longrightarrow> snd a < end_time s) sil) segs"

text \<open>
  The corrected start and end of subtract-only mode, written with the first silence
  segment that ends at or after a bound, \<open>skip_silence sil bound 0\<close>.
\<close>

definition sub_start :: "silence_segment list \<Rightarrow> seconds \<Rightarrow> seconds \<Rightarrow> seconds" where
  "sub_start sil st en =
     (let i = skip_silence sil st 0
      in if i < length sil \<and> fst (sil ! i) < st \<and> st < snd (sil ! i) \<and> snd (sil ! i) < en
         then snd (sil ! i) else st)"

definition sub_end :: "silence_segment list \<Rightarrow> seconds \<Rightarrow> seconds \<Rightarrow> seconds" where
  "sub_end sil st1 en =
     (let i = skip_silence sil en 0
      in if i < length sil \<and> st1 < fst (sil ! i) \<and> en < snd (sil ! i) \<and> fst (sil ! i) < en
         then fst (sil ! i) else en)"

text \<open>
  \<open>sil_apart\<close>: each silence segment ends strictly before every later one starts, as in
  every list derived from audio events. \<open>sub_start_at\<close> and \<open>sub_end_at\<close> are the
  corrected start and end of subtract-only mode for a pointer that comes in at \<open>index\<close>.
\<close>

definition sil_apart :: "silence_segment list \<Rightarrow> bool" where
  "sil_apart sil \<longleftrightarrow> sorted_wrt (\<lambda>a b. snd a < fst b) sil"

definition sub_start_at :: "silence_segment list \<Rightarrow> nat \<Rightarrow> seconds \<Rightarrow> seconds \<Rightarrow> seconds" where
  "sub_start_at sil index st en =
     (let i = skip_silence sil st index
      in if i < length sil \<and> fst (sil ! i) < st \<and> st < snd (sil ! i) \<and> snd (sil ! i) < en
         then snd (sil ! i) else st)"

definition sub_end_at :: "silence_segment list \<Rightarrow> nat \<Rightarrow> seconds \<Rightarrow> seconds \<Rightarrow> seconds" where
  "sub_end_at sil index st1 en =
     (let i = skip_silence sil en index
      in if i < length sil \<and> st1 < fst (sil ! i) \<and> en < snd (sil ! i) \<and> fst (sil ! i) < en
         then fst (sil ! i) else en)"

section \<open>Properties of \<open>time_to_seconds\<close>\<close>

lemma colon_not_digit: "\<not> is_digit (CHR '':'')"
  by (simp add: is_digit_def)

lemma len2: "length xs = 2 \<Longrightarrow> \<exists>a b. xs = [a, b]"
  by (cases xs; cases "tl xs") auto

lemma len1: "length xs = 1 \<Longrightarrow> \<exists>a. xs = [a]"
  by (cases xs) auto

lemma takeWhile_digits:
  assumes "list_all is_digit ms_str" "rest = [] \<or> \<not> is_digit (hd rest)"
  shows "takeWhile is_digit (ms_str @ rest) = ms_str"
proof -
  have "takeWhile is_digit rest = []" using assms(2) by (cases rest) auto
  then show ?thesis using assms(1) by (simp add: list_all_iff)
qed

lemma match_tail_timestamp:
  assumes "length minutes = 2" "list_all is_digit minutes" "length secs = 2" "list_all is_digit secs"
    "sep = CHR '','' \<or> sep = CHR ''.''" "ms_str \<noteq> []" "list_all is_digit ms_str"
    "rest = [] \<or> \<not> is_digit (hd rest)"
  shows "match_tail ('':'' @ minutes @ '':'' @ secs @ [sep] @ ms_str @ rest) = Some (minutes, secs, ms_str)"
proof -
  obtain m1 m2 where m: "minutes = [m1, m2]" using len2[OF assms(1)] by blast
  obtain s1 s2 where s: "secs = [s1, s2]" using len2[OF assms(3)] by blast
  obtain d ds where f: "ms_str = d # ds" using assms(6) by (cases ms_str) auto
  have tw: "takeWhile is_digit (ms_str @ rest) = ms_str"
    by (rule takeWhile_digits[OF assms(7,8)])
  have "is_digit d" using assms(7) f by simp
  then show ?thesis using assms(2,4,5) m s f tw by auto
qed

lemma re_match_timestamp:
  assumes "well_formed hours minutes secs sep ms_str" "rest = [] \<or> \<not> is_digit (hd rest)"
  shows "re_match (timestamp hours minutes secs sep ms_str @ rest) = Some (hours, minutes, secs, ms_str)"
proof -
  let ?t = "'':'' @ minutes @ '':'' @ secs @ [sep] @ ms_str @ rest"
  have wf: "length hours = 1 \<or> length hours = 2" "list_all is_digit hours"
    "length minutes = 2" "list_all is_digit minutes" "length secs = 2" "list_all is_digit secs"
    "sep = CHR '','' \<or> sep = CHR ''.''" "ms_str \<noteq> []" "list_all is_digit ms_str"
    using assms(1) by (simp_all add: well_formed_def)
  have mt: "match_tail ?t = Some (minutes, secs, ms_str)"
    by (rule match_tail_timestamp[OF wf(3-9) assms(2)])
  have eq: "timestamp hours minutes secs sep ms_str @ rest = hours @ ?t"
    by (simp add: timestamp_def)
  from wf(1) show ?thesis
  proof
    assume "length hours = 1"
    then obtain h where h: "hours = [h]" using len1 by blast
    have "match_hours 2 (hours @ ?t) = None"
      using h colon_not_digit by (simp add: match_hours_def)
    moreover have "match_hours 1 (hours @ ?t) = Some (hours, minutes, secs, ms_str)"
      using h wf(2) mt by (simp add: match_hours_def)
    ultimately show ?thesis by (simp add: re_match_def eq)
  next
    assume "length hours = 2"
    then obtain h1 h2 where h: "hours = [h1, h2]" using len2 by blast
    have "match_hours 2 (hours @ ?t) = Some (hours, minutes, secs, ms_str)"
      using h wf(2) mt by (simp add: match_hours_def)
    then show ?thesis by (simp add: re_match_def eq)
  qed
qed

lemma match_tail_SomeD:
  assumes "match_tail t = Some (minutes, secs, ms)"
  shows "\<exists>sep rest. t = '':'' @ minutes @ '':'' @ secs @ [sep] @ ms @ rest
            \<and> length minutes = 2 \<and> list_all is_digit minutes \<and> length secs = 2 \<and> list_all is_digit secs
            \<and> (sep = CHR '','' \<or> sep = CHR ''.'') \<and> ms \<noteq> [] \<and> list_all is_digit ms"
proof -
  obtain c1 m1 m2 c2 s1 s2 sep d rest where t: "t = c1 # m1 # m2 # c2 # s1 # s2 # sep # d # rest"
    using assms by (cases t rule: match_tail.cases) auto
  have c: "c1 = CHR '':''" "is_digit m1" "is_digit m2" "c2 = CHR '':''" "is_digit s1" "is_digit s2"
    "sep = CHR '','' \<or> sep = CHR ''.''" "is_digit d"
    and g: "minutes = [m1, m2]" "secs = [s1, s2]" "ms = takeWhile is_digit (d # rest)"
    using assms unfolding t by (auto split: if_splits)
  obtain r where r: "d # rest = ms @ r"
    using g(3) takeWhile_dropWhile_id[of is_digit "d # rest"] by metis
  have ne: "ms \<noteq> []" using g(3) c(8) by simp
  have dg: "list_all is_digit ms" unfolding g(3) list_all_iff
    by (meson set_takeWhileD)
  have "t = '':'' @ minutes @ '':'' @ secs @ [sep] @ ms @ r"
    using t r c(1,4) g(1,2) by simp
  then show ?thesis using c(2,3,5,6,7) g(1,2) ne dg by auto
qed

lemma match_hours_SomeD:
  assumes "match_hours n s = Some (hours, minutes, secs, ms)" "n = 1 \<or> n = 2"
  shows "\<exists>sep rest. well_formed hours minutes secs sep ms \<and> s = timestamp hours minutes secs sep ms @ rest"
proof -
  from assms(1) have n: "n \<le> length s" "list_all is_digit (take n s)"
    and mt: "match_tail (drop n s) = Some (minutes, secs, ms)" and h: "hours = take n s"
    by (auto simp: match_hours_def split: if_splits)
  from match_tail_SomeD[OF mt] obtain sep rest where
    d: "drop n s = '':'' @ minutes @ '':'' @ secs @ [sep] @ ms @ rest"
    and w: "length minutes = 2" "list_all is_digit minutes" "length secs = 2" "list_all is_digit secs"
       "sep = CHR '','' \<or> sep = CHR ''.''" "ms \<noteq> []" "list_all is_digit ms" by blast
  have "s = take n s @ drop n s" by simp
  then have "s = timestamp hours minutes secs sep ms @ rest"
    using d h by (simp add: timestamp_def)
  moreover have "well_formed hours minutes secs sep ms"
    using w n h assms(2) by (auto simp: well_formed_def)
  ultimately show ?thesis by blast
qed

lemma re_match_SomeD:
  assumes "re_match s = Some (hours, minutes, secs, ms)"
  shows "\<exists>sep rest. well_formed hours minutes secs sep ms \<and> s = timestamp hours minutes secs sep ms @ rest"
proof (cases "match_hours 2 s")
  case None
  then have "match_hours 1 s = Some (hours, minutes, secs, ms)" using assms by (simp add: re_match_def)
  then show ?thesis by (rule match_hours_SomeD) simp
next
  case (Some g)
  then have "match_hours 2 s = Some (hours, minutes, secs, ms)" using assms by (simp add: re_match_def)
  then show ?thesis by (rule match_hours_SomeD) simp
qed

text \<open>
  C10 (as amended). For every string that starts with a timestamp \<open>H:MM:SS\<close> or
  \<open>HH:MM:SS\<close>, a comma or dot and one or more digits, and goes on with no further digit,
  \<open>time_to_seconds\<close> returns hours, minutes and seconds plus the milliseconds read from
  exactly three digits: the digit group padded right with zeros to three and cut after the
  third. Characters after the digit group are ignored. A string raises the error only if
  it has no prefix of that shape.
\<close>

theorem time_to_seconds_prefix:
  "(well_formed hours minutes secs sep ms_str \<and> (rest = [] \<or> \<not> is_digit (hd rest)) \<longrightarrow>
      time_to_seconds (timestamp hours minutes secs sep ms_str @ rest)
        = Inr (of_nat (int_of_digits hours) * 3600 + of_nat (int_of_digits minutes) * 60
               + of_nat (int_of_digits secs)
               + of_nat (int_of_digits (take 3 (ms_str @ replicate (3 - length ms_str) (CHR ''0'')))) / 1000))
   \<and> (time_to_seconds s = Inl (Invalid_time_format s)
        \<or> (\<exists>h m sc sp fr rst. well_formed h m sc sp fr \<and> s = timestamp h m sc sp fr @ rst))"
proof (intro conjI impI)
  assume "well_formed hours minutes secs sep ms_str \<and> (rest = [] \<or> \<not> is_digit (hd rest))"
  then have "re_match (timestamp hours minutes secs sep ms_str @ rest) = Some (hours, minutes, secs, ms_str)"
    using re_match_timestamp by blast
  then show "time_to_seconds (timestamp hours minutes secs sep ms_str @ rest)
        = Inr (of_nat (int_of_digits hours) * 3600 + of_nat (int_of_digits minutes) * 60
               + of_nat (int_of_digits secs)
               + of_nat (int_of_digits (take 3 (ms_str @ replicate (3 - length ms_str) (CHR ''0'')))) / 1000)"
    by (simp add: time_to_seconds_def ljust3_def)
next
  show "time_to_seconds s = Inl (Invalid_time_format s)
        \<or> (\<exists>h m sc sp fr rst. well_formed h m sc sp fr \<and> s = timestamp h m sc sp fr @ rst)"
  proof (cases "re_match s")
    case None
    then show ?thesis by (simp add: time_to_seconds_def)
  next
    case (Some g)
    obtain h m sc ms where "g = (h, m, sc, ms)" by (cases g) auto
    with Some re_match_SomeD show ?thesis by blast
  qed
qed

text \<open>The instance \<open>0:00:01,5\<close>: one and a half seconds, not 1.005.\<close>

theorem time_to_seconds_prefix_witness:
  "well_formed ''0'' ''00'' ''01'' (CHR '','') ''5''
   \<and> time_to_seconds ''0:00:01,5'' = Inr (3 / 2)
   \<and> time_to_seconds ''0:00:01,5'' \<noteq> Inr (1005 / 1000)"
proof -
  have w: "well_formed ''0'' ''00'' ''01'' (CHR '','') ''5''" by code_simp
  have v: "(of_nat (int_of_digits ''0'') * 3600 + of_nat (int_of_digits ''00'') * 60
               + of_nat (int_of_digits ''01'')
               + of_nat (int_of_digits (take 3 (''5'' @ replicate (3 - length ''5'') (CHR ''0'')))) / 1000 :: rat) = 3 / 2"
    by code_simp
  have t: "timestamp ''0'' ''00'' ''01'' (CHR '','') ''5'' @ [] = ''0:00:01,5''" by (simp add: timestamp_def)
  from time_to_seconds_prefix[where hours = "''0''" and minutes = "''00''" and secs = "''01''"
      and sep = "CHR '',''" and ms_str = "''5''" and rest = "[]"] w
  have "time_to_seconds ''0:00:01,5'' = Inr (3 / 2)" unfolding v t by simp
  with w show ?thesis by simp
qed

text \<open>A timestamp made of well-formed parts passes the test on the whole string.\<close>

lemma timestamp_shape_timestamp:
  assumes "well_formed hours minutes secs sep ms_str"
  shows "timestamp_shape (timestamp hours minutes secs sep ms_str)"
proof -
  have wf: "length hours = 1 \<or> length hours = 2" "list_all is_digit hours"
    "length minutes = 2" "list_all is_digit minutes" "length secs = 2" "list_all is_digit secs"
    "sep = CHR '','' \<or> sep = CHR ''.''" "ms_str \<noteq> []" "list_all is_digit ms_str"
    using assms by (simp_all add: well_formed_def)
  obtain m1 m2 where m: "minutes = [m1, m2]" using len2[OF wf(3)] by blast
  obtain s1 s2 where s: "secs = [s1, s2]" using len2[OF wf(5)] by blast
  obtain d ds where f: "ms_str = d # ds" using wf(8) by (cases ms_str) auto
  have t: "shape_tail ('':'' @ minutes @ '':'' @ secs @ [sep] @ ms_str)"
    using wf(4,6,7,9) m s f by auto
  from wf(1) show ?thesis
  proof
    assume "length hours = 1"
    then obtain h where h: "hours = [h]" using len1 by blast
    show ?thesis using t wf(2) unfolding h timestamp_def timestamp_shape_def by simp
  next
    assume "length hours = 2"
    then obtain h1 h2 where h: "hours = [h1, h2]" using len2 by blast
    show ?thesis using t wf(2) unfolding h timestamp_def timestamp_shape_def by simp
  qed
qed

text \<open>
  C10 as stated fails: \<open>0:00:01,5x\<close> is not of the shape, since \<open>x\<close> follows the
  digits, and yet no error is raised, because \<open>re.match\<close> does not anchor the end.
\<close>

theorem time_to_seconds_trailing_counterexample:
  "\<not> timestamp_shape ''0:00:01,5x'' \<and> time_to_seconds ''0:00:01,5x'' = Inr (3 / 2)"
  by code_simp


section \<open>Properties of the derived silence segments\<close>

lemma silence_loop_lower:
  assumes "0 \<le> aw" "0 < cur"
    and "list_all (\<lambda>(s, e). cur \<le> s \<and> s < e) evs"
    and "sorted_wrt (\<lambda>a b. snd a \<le> fst b) evs"
  shows "\<forall>seg \<in> set (silence_loop False aw m cur evs). cur + aw \<le> fst seg"
  using assms
proof (induction evs arbitrary: cur)
  case Nil
  then show ?case by simp
next
  case (Cons ev evs)
  obtain s e where ev: "ev = (s, e)" by (cases ev)
  from Cons.prems ev have se: "cur \<le> s" "s < e" by simp_all
  have "list_all (\<lambda>(s', e'). e \<le> s' \<and> s' < e') evs"
    using Cons.prems(3,4) ev by (auto simp: list_all_iff)
  moreover have "sorted_wrt (\<lambda>a b. snd a \<le> fst b) evs" using Cons.prems(4) by simp
  moreover have "0 < e" using se Cons.prems(2) by linarith
  ultimately have IH: "\<forall>seg \<in> set (silence_loop False aw m e evs). e + aw \<le> fst seg"
    using Cons.IH[of e] Cons.prems(1) by blast
  have "\<forall>seg \<in> set (silence_loop False aw m e evs). cur + aw \<le> fst seg"
    using IH se by fastforce
  then show ?case using ev Cons.prems(2) by (auto simp: Let_def)
qed

lemma silence_loop_sorted:
  assumes "0 \<le> aw" "0 \<le> cur"
    and "list_all (\<lambda>(s, e). cur \<le> s \<and> s < e) evs"
    and "sorted_wrt (\<lambda>a b. snd a \<le> fst b) evs"
  shows "sorted_wrt (\<lambda>a b. snd a < fst b \<and> fst a < fst b) (silence_loop False aw m cur evs)"
  using assms
proof (induction evs arbitrary: cur)
  case Nil
  then show ?case by simp
next
  case (Cons ev evs)
  obtain s e where ev: "ev = (s, e)" by (cases ev)
  from Cons.prems ev have se: "cur \<le> s" "s < e" by simp_all
  have la: "list_all (\<lambda>(s', e'). e \<le> s' \<and> s' < e') evs"
    using Cons.prems(3,4) ev by (auto simp: list_all_iff)
  have so: "sorted_wrt (\<lambda>a b. snd a \<le> fst b) evs" using Cons.prems(4) by simp
  have epos: "0 < e" using se Cons.prems(2) by linarith
  have IH: "sorted_wrt (\<lambda>a b. snd a < fst b \<and> fst a < fst b) (silence_loop False aw m e evs)"
    using Cons.IH[of e] Cons.prems(1) la so epos by simp
  have low: "\<forall>seg \<in> set (silence_loop False aw m e evs). e + aw \<le> fst seg"
    using silence_loop_lower[OF Cons.prems(1) epos la so] .
  have "\<forall>seg \<in> set (silence_loop False aw m e evs).
          s - aw < fst seg \<and> cur + (if 0 < cur then aw else 0) < fst seg"
    using low se Cons.prems(1) by (auto split: if_splits)
  then show ?case using ev IH by (auto simp: Let_def)
qed

lemma silence_loop_min_dur:
  "\<forall>seg \<in> set (silence_loop negate aw m cur evs). m \<le> snd seg - fst seg"
  by (induction negate aw m cur evs rule: silence_loop.induct) (auto simp: Let_def)

text \<open>
  C8. For every ordered, non-overlapping list of audio events the derived silence segments
  are pairwise disjoint (each ends before the next one starts, so the half-open ranges do
  not meet), strictly increasing by start, and each has duration at least
  \<open>min_silence_dur\<close>. A candidate shorter than that is dropped and the loop goes on from
  the end of the event, as the cursor has already moved.
\<close>

theorem silence_segments_disjoint_sorted_min:
  assumes "events_ok audio_events"
  shows "sorted_wrt (\<lambda>a b. snd a < fst b \<and> {fst a ..< snd a} \<inter> {fst b ..< snd b} = {})
           (silence_segments False min_silence_dur audio_events)
       \<and> sorted_wrt (\<lambda>a b. fst a < fst b) (silence_segments False min_silence_dur audio_events)
       \<and> list_all (\<lambda>seg. min_silence_dur \<le> snd seg - fst seg)
           (silence_segments False min_silence_dur audio_events)
       \<and> (r_start - analysis_window - (cur_pos + (if 0 < cur_pos then analysis_window else 0))
            < min_silence_dur \<longrightarrow>
          silence_loop False analysis_window min_silence_dur cur_pos ((r_start, r_end) # rs)
            = silence_loop False analysis_window min_silence_dur r_end rs)"
proof -
  let ?ss = "silence_segments False min_silence_dur audio_events"
  have la: "list_all (\<lambda>(s, e). 0 \<le> s \<and> s < e) audio_events"
    and so: "sorted_wrt (\<lambda>a b. snd a \<le> fst b) audio_events"
    using assms by (simp_all add: events_ok_def)
  have base: "sorted_wrt (\<lambda>a b. snd a < fst b \<and> fst a < fst b) ?ss"
    unfolding silence_segments_def
    by (rule silence_loop_sorted) (use la so in \<open>simp_all add: analysis_window_def\<close>)
  have 1: "sorted_wrt (\<lambda>a b. snd a < fst b \<and> {fst a ..< snd a} \<inter> {fst b ..< snd b} = {}) ?ss"
    by (rule sorted_wrt_mono_rel[OF _ base]) auto
  have 2: "sorted_wrt (\<lambda>a b. fst a < fst b) ?ss"
    by (rule sorted_wrt_mono_rel[OF _ base]) auto
  have 3: "list_all (\<lambda>seg. min_silence_dur \<le> snd seg - fst seg) ?ss"
    using silence_loop_min_dur[of False analysis_window min_silence_dur 0 audio_events]
    by (simp add: silence_segments_def list_all_iff)
  have 4: "r_start - analysis_window - (cur_pos + (if 0 < cur_pos then analysis_window else 0))
            < min_silence_dur \<longrightarrow>
          silence_loop False analysis_window min_silence_dur cur_pos ((r_start, r_end) # rs)
            = silence_loop False analysis_window min_silence_dur r_end rs"
    by (simp add: Let_def)
  from 1 2 3 4 show ?thesis by blast
qed

text \<open>Three events; the candidate between the second and the third is too short.\<close>

theorem silence_segments_disjoint_sorted_min_witness:
  "events_ok [(1, 2), (5, 6), (601/100, 7)]
   \<and> silence_segments False (5/100) [(1, 2), (5, 6), (601/100, 7)] = [(0, 99/100), (201/100, 499/100)]
   \<and> sorted_wrt (\<lambda>a b. snd a < fst b \<and> {fst a ..< snd a} \<inter> {fst b ..< snd b} = {})
           (silence_segments False (5/100) [(1, 2), (5, 6), (601/100, 7)])"
  using silence_segments_disjoint_sorted_min[where audio_events = "[(1, 2), (5, 6), (601/100, 7)]"
      and min_silence_dur = "5/100" and r_start = "601/100" and cur_pos = 6 and r_end = 7 and rs = "[]"]
  by (simp add: events_ok_def silence_segments_def analysis_window_def)

text \<open>
  C1 as stated fails: for the events \<open>[(1,2),(5,6)]\<close> the loop derives two segments, and
  the first is the leading silence \<open>[0, 1 - analysis_window]\<close>.
\<close>

theorem leading_silence_counterexample:
  "silence_segments False (5/100) [(1, 2), (5, 6)] \<noteq> [(2 + analysis_window, 5 - analysis_window)]
   \<and> length (silence_segments False (5/100) [(1, 2), (5, 6)]) = 2
   \<and> hd (silence_segments False (5/100) [(1, 2), (5, 6)]) = (0, 1 - analysis_window)"
  by (simp add: silence_segments_def analysis_window_def)

text \<open>
  C1 (as amended). For the events \<open>[(1,2),(5,6)]\<close> and the default minimum silence
  duration 0.05 exactly two silence segments are derived, \<open>[0, 1 - tol]\<close> and
  \<open>[2 + tol, 5 - tol]\<close> with \<open>tol = analysis_window = 0.01\<close>. In general the leading
  silence \<open>[0, r.start - tol]\<close> before the first event is derived whenever it is at least
  \<open>min_silence_dur\<close> long.
\<close>

theorem leading_silence_derived:
  assumes "min_silence_dur \<le> r_start - analysis_window"
  shows "silence_segments False (5/100) [(1, 2), (5, 6)]
           = [(0, 1 - analysis_window), (2 + analysis_window, 5 - analysis_window)]
       \<and> silence_segments False min_silence_dur ((r_start, r_end) # rs)
           = (0, r_start - analysis_window)
               # silence_loop False analysis_window min_silence_dur r_end rs"
  using assms by (simp add: silence_segments_def analysis_window_def)

theorem leading_silence_derived_witness:
  "(5/100 :: rat) \<le> 1 - analysis_window
   \<and> silence_segments False (5/100) [(1, 2), (5, 6)] = [(0, 99/100), (201/100, 499/100)]"
  using leading_silence_derived[where min_silence_dur = "5/100" and r_start = 1 and r_end = 2 and rs = "[(5, 6)]"]
  by (simp add: analysis_window_def)


section \<open>Subtract-only mode never extends\<close>

lemma subtract_segment_shrunk: "shrunk s (snd (subtract_segment sil index s))"
proof -
  let ?start0 = "start_time s" and ?end0 = "end_time s"
  let ?i1 = "skip_silence sil ?start0 index"
  let ?start1 = "(if ?i1 < length sil then
               (let (silence_start, silence_end) = sil ! ?i1
                in if silence_start < ?start0 \<and> ?start0 < silence_end \<and> silence_end < ?end0
                   then silence_end else ?start0)
             else ?start0)"
  let ?i2 = "skip_silence sil ?end0 ?i1"
  let ?end1 = "(if ?i2 < length sil then
               (let (silence_start, silence_end) = sil ! ?i2
                in if silence_start > ?start1 \<and> ?end0 < silence_end \<and> silence_start < ?end0
                   then silence_start else ?end0)
             else ?end0)"
  have r: "snd (subtract_segment sil index s) = s\<lparr>start_time := ?start1, end_time := ?end1\<rparr>"
    by (simp add: subtract_segment_def Let_def)
  have a: "?start0 \<le> ?start1" by (simp split: prod.splits)
  have b: "?end1 \<le> ?end0" by (simp split: prod.splits)
  have c: "?start0 \<le> ?end0 \<longrightarrow> ?start1 < ?end0 \<or> ?start1 = ?start0"
    by (simp split: prod.splits)
  have d: "?end1 = ?end0 \<or> ?start1 < ?end1" by (simp split: prod.splits)
  have e: "?start0 \<le> ?end0 \<longrightarrow> ?start1 \<le> ?end1" using c d by linarith
  show ?thesis unfolding shrunk_def r using a b e by auto
qed

lemma subtract_loop_shrunk: "list_all2 shrunk segments (subtract_loop sil index segments)"
proof (induction segments arbitrary: index)
  case Nil
  show ?case by simp
next
  case (Cons s segments)
  obtain index' s' where r: "subtract_segment sil index s = (index', s')"
    by (cases "subtract_segment sil index s")
  have "shrunk s s'" using subtract_segment_shrunk[of s sil index] r by simp
  then show ?case using Cons.IH[of index'] r by simp
qed

text \<open>
  C2. In subtract-only mode the record written for each subtitle segment keeps its index
  and text, its start is never less than the original start and its end never greater
  than the original end, so the corrected range \<open>[start, end)\<close> lies within the original
  one; a segment with \<open>start \<le> end\<close> keeps \<open>start \<le> end\<close>.
\<close>

theorem subtract_only_never_extends:
  "list_all2 shrunk segments (subtract_only sil segments)"
  by (simp add: subtract_only_def subtract_loop_shrunk)

text \<open>A subtitle cut at both ends by the silences around it.\<close>

theorem subtract_only_never_extends_witness:
  "subtract_only [(0, 5), (6, 7)]
     [\<lparr>index_of = 1, start_time = 1, end_time = 13/2, text_of = ''a''\<rparr>]
     = [\<lparr>index_of = 1, start_time = 5, end_time = 6, text_of = ''a''\<rparr>]
   \<and> shrunk \<lparr>index_of = 1, start_time = 1, end_time = 13/2, text_of = ''a''\<rparr>
        \<lparr>index_of = 1, start_time = 5, end_time = 6, text_of = ''a''\<rparr>"
proof -
  have e: "subtract_only [(0, 5), (6, 7)]
     [\<lparr>index_of = 1, start_time = 1, end_time = 13/2, text_of = ''a''\<rparr>]
     = [\<lparr>index_of = 1, start_time = 5, end_time = 6, text_of = ''a''\<rparr>]"
    by code_simp
  from subtract_only_never_extends[of "[\<lparr>index_of = 1, start_time = 1, end_time = 13/2, text_of = ''a''\<rparr>]" "[(0, 5), (6, 7)]"]
  show ?thesis unfolding e by simp
qed

section \<open>The merged timeline\<close>

lemma sort_key_append:
  "sort_key f (xs @ ys) = foldr (insort_key f) xs (sort_key f ys)"
  by (induction xs) simp_all

lemma tie_order_insort_segment:
  assumes "sorted_wrt tie_order xs" "entry_kind x = segment"
  shows "sorted_wrt tie_order (insort_key entry_start x xs)"
  using assms(1)
proof (induction xs)
  case Nil
  show ?case by simp
next
  case (Cons y ys)
  show ?case
  proof (cases "entry_start x \<le> entry_start y")
    case True
    have "\<forall>z \<in> set (y # ys). tie_order x z"
      using Cons.prems True assms(2) by (auto simp: tie_order_def)
    then show ?thesis using True Cons.prems by simp
  next
    case False
    have "tie_order y x" using False by (simp add: tie_order_def)
    moreover have "\<forall>z \<in> set ys. tie_order y z" using Cons.prems by simp
    moreover have "sorted_wrt tie_order (insort_key entry_start x ys)"
      using Cons by simp
    ultimately show ?thesis using False by (simp add: set_insort_key)
  qed
qed

lemma tie_order_silences:
  "sorted_wrt tie_order (sort_key entry_start (map silence_entry sil))"
proof -
  let ?ys = "sort_key entry_start (map silence_entry sil)"
  have "sorted (map entry_start ?ys)" by simp
  then have s: "sorted_wrt (\<lambda>a b. entry_start a \<le> entry_start b) ?ys"
    by (simp add: sorted_map)
  have k: "\<forall>z \<in> set ?ys. entry_kind z = silence" by (auto simp: silence_entry_def)
  show ?thesis
    by (rule sorted_wrt_mono_rel[OF _ s]) (use k in \<open>auto simp: tie_order_def\<close>)
qed

lemma tie_order_foldr:
  assumes "sorted_wrt tie_order ys" "\<forall>x \<in> set xs. entry_kind x = segment"
  shows "sorted_wrt tie_order (foldr (insort_key entry_start) xs ys)"
  using assms(2) by (induction xs) (simp_all add: assms(1) tie_order_insort_segment)

lemma tie_order_merge_timeline: "sorted_wrt tie_order (merge_timeline segments sil)"
  unfolding merge_timeline_def sort_key_append
  by (rule tie_order_foldr[OF tie_order_silences]) (auto simp: segment_entry_def)





section \<open>The walk of the expand/subtract mode\<close>

lemma kind_set_start [simp]: "entry_kind (set_start v e) = entry_kind e"
  by (cases e) auto

lemma kind_set_end [simp]: "entry_kind (set_end v e) = entry_kind e"
  by (cases e) auto

lemma kind_adjust [simp]: "entry_kind (adjust fl k) = entry_kind (fl ! k)"
  by (simp add: adjust_def Let_def)

lemma length_walked [simp]: "length (walked fl index) = length fl"
  by (simp add: walked_def)

lemma nth_walked:
  "j < length fl \<Longrightarrow>
   walked fl index ! j = (if j < index \<and> entry_kind (fl ! j) = segment then adjust fl j else fl ! j)"
  by (simp add: walked_def)

lemma kind_walked [simp]: "j < length fl \<Longrightarrow> entry_kind (walked fl index ! j) = entry_kind (fl ! j)"
  by (simp add: nth_walked)

lemma walked_silence:
  "j < length fl \<Longrightarrow> entry_kind (fl ! j) = silence \<Longrightarrow> walked fl index ! j = fl ! j"
  by (simp add: nth_walked)

lemma walked_ge: "j < length fl \<Longrightarrow> index \<le> j \<Longrightarrow> walked fl index ! j = fl ! j"
  by (simp add: nth_walked)

lemma adjust_walked:
  assumes "k < length fl" "index \<le> k"
  shows "adjust (walked fl index) k = adjust fl k"
proof -
  have cur: "walked fl index ! k = fl ! k" using assms by (rule walked_ge)
  have prev: "1 \<le> k \<Longrightarrow> entry_kind (fl ! (k - 1)) = silence \<Longrightarrow>
      walked fl index ! (k - 1) = fl ! (k - 1)"
    using assms(1) by (intro walked_silence) auto
  have prevk: "1 \<le> k \<Longrightarrow> entry_kind (walked fl index ! (k - 1)) = entry_kind (fl ! (k - 1))"
    using assms(1) by (intro kind_walked) auto
  have nxt: "k + 1 < length fl \<Longrightarrow> walked fl index ! (k + 1) = fl ! (k + 1)"
    using assms(2) by (intro walked_ge) auto
  show ?thesis
    unfolding adjust_def Let_def cur length_walked
    using prev prevk nxt by (auto cong: if_cong)
qed

lemma walked_Suc_segment:
  assumes "index < length fl" "entry_kind (fl ! index) = segment"
  shows "(walked fl index)[index := adjust fl index] = walked fl (Suc index)"
  by (rule nth_equalityI) (use assms in \<open>auto simp: nth_walked nth_list_update less_Suc_eq\<close>)

lemma walked_Suc_silence:
  assumes "index < length fl" "entry_kind (fl ! index) \<noteq> segment"
  shows "walked fl (Suc index) = walked fl index"
  by (rule nth_equalityI) (use assms in \<open>auto simp: nth_walked less_Suc_eq\<close>)

lemma walked_0 [simp]: "walked fl 0 = fl"
  by (rule nth_equalityI) (auto simp: nth_walked)

lemma written_between_step:
  "a < b \<Longrightarrow> written_between fl a b =
     (if entry_kind (fl ! a) = segment then [written_record (adjust fl a)] else [])
       @ written_between fl (Suc a) b"
  by (simp add: written_between_def upt_conv_Cons)

lemma written_between_empty [simp]: "written_between fl a a = []"
  by (simp add: written_between_def)

lemma step_segment_walked:
  assumes "full_list st = walked fl index" "index < length fl" "entry_kind (fl ! index) = segment"
  shows "step env index st =
     (if adjusted_ok fl index
      then (None, st\<lparr>full_list := walked fl (Suc index),
                      written := written st @ [written_record (adjust fl index)]\<rparr>)
      else (Some (Invalid_segment (entry_start (adjust fl index)) (entry_end (adjust fl index))),
            st\<lparr>full_list := walked fl (Suc index)\<rparr>))"
proof -
  have a: "adjust (full_list st) index = adjust fl index"
    using assms by (simp add: adjust_walked)
  have k: "entry_kind (full_list st ! index) = segment" using assms by simp
  have u: "(full_list st)[index := adjust fl index] = walked fl (Suc index)"
    using assms by (simp add: walked_Suc_segment)
  show ?thesis
    by (simp add: step_def k step_segment_def Let_def a u adjusted_ok_def not_le)
qed

lemma step_silence_fields:
  "full_list (step_silence env index st) = full_list st"
  "written (step_silence env index st) = written st"
  by (simp_all add: step_silence_def Let_def)

lemma step_silence_walked:
  assumes "full_list st = walked fl index" "index < length fl" "entry_kind (fl ! index) \<noteq> segment"
  shows "step env index st = (None, step_silence env index st)"
    and "full_list (step_silence env index st) = walked fl (Suc index)"
proof -
  have k: "entry_kind (full_list st ! index) \<noteq> segment" using assms by simp
  show "step env index st = (None, step_silence env index st)" by (simp add: step_def k)
  show "full_list (step_silence env index st) = walked fl (Suc index)"
    using assms by (simp add: step_silence_fields walked_Suc_silence)
qed

lemma walk_post_walk:
  assumes "full_list st = walked fl index" "index \<le> length fl"
  shows "walk_post fl index st (walk env index st)"
  using assms
proof (induction "length fl - index" arbitrary: index st)
  case 0
  then have i: "index = length fl" by simp
  have "\<not> index < length (full_list st)" using i 0 by simp
  then have "walk env index st = (None, st)"
    by (subst walk.simps) simp
  then show ?case using i 0 by (auto simp: walk_post_def)
next
  case (Suc n)
  then have lt: "index < length fl" by simp
  have lts: "index < length (full_list st)" using lt Suc.prems by simp
  show ?case
  proof (cases "entry_kind (fl ! index) = segment")
    case seg: True
    note stp = step_segment_walked[OF Suc.prems(1) lt seg, of env]
    show ?thesis
    proof (cases "adjusted_ok fl index")
      case ok: True
      let ?st' = "st\<lparr>full_list := walked fl (Suc index),
                      written := written st @ [written_record (adjust fl index)]\<rparr>"
      have w: "walk env index st = walk env (Suc index) ?st'"
        using lts stp ok by (simp add: walk.simps[of env index st])
      have "n = length fl - Suc index" using Suc.hyps(2) by simp
      moreover have "full_list ?st' = walked fl (Suc index)" by simp
      moreover have "Suc index \<le> length fl" using lt by simp
      ultimately have IH: "walk_post fl (Suc index) ?st' (walk env (Suc index) ?st')"
        by (rule Suc.hyps(1))
      obtain r st'' where r: "walk env (Suc index) ?st' = (r, st'')" by (cases "walk env (Suc index) ?st'")
      have wb: "\<And>b. index < b \<Longrightarrow> written_between fl index b = written_record (adjust fl index) # written_between fl (Suc index) b"
        using seg by (simp add: written_between_step)
      show ?thesis
      proof (cases r)
        case None
        with IH r have
          a: "\<forall>k. Suc index \<le> k \<and> k < length fl \<and> entry_kind (fl ! k) = segment \<longrightarrow> adjusted_ok fl k"
          and b: "written st'' = written ?st' @ written_between fl (Suc index) (length fl)"
          and c: "full_list st'' = walked fl (length fl)"
          by (simp_all add: walk_post_def)
        have a': "\<forall>k. index \<le> k \<and> k < length fl \<and> entry_kind (fl ! k) = segment \<longrightarrow> adjusted_ok fl k"
          using a ok by (metis Suc_leI le_neq_implies_less)
        show ?thesis unfolding w r None walk_post_def
          using a' b c wb[OF lt] by simp
      next
        case (Some e)
        with IH r obtain j where j: "Suc index \<le> j" "j < length fl" "entry_kind (fl ! j) = segment"
          "\<not> adjusted_ok fl j"
          "\<forall>k. Suc index \<le> k \<and> k < j \<and> entry_kind (fl ! k) = segment \<longrightarrow> adjusted_ok fl k"
          "e = Invalid_segment (entry_start (adjust fl j)) (entry_end (adjust fl j))"
          "written st'' = written ?st' @ written_between fl (Suc index) j"
          "full_list st'' = walked fl (Suc j)"
          by (auto simp: walk_post_def)
        have a': "\<forall>k. index \<le> k \<and> k < j \<and> entry_kind (fl ! k) = segment \<longrightarrow> adjusted_ok fl k"
          using j(5) ok by (metis Suc_leI le_neq_implies_less)
        have ij: "index < j" using j(1) by simp
        have "written st'' = written st @ written_between fl index j"
          using j(7) wb[OF ij] by simp
        then show ?thesis unfolding w r Some walk_post_def
          using a' j(1-4,6,8) ij by (auto intro!: exI[of _ j])
      qed
    next
      case bad: False
      have w: "walk env index st =
        (Some (Invalid_segment (entry_start (adjust fl index)) (entry_end (adjust fl index))),
            st\<lparr>full_list := walked fl (Suc index)\<rparr>)"
        using lts stp bad by (simp add: walk.simps[of env index st])
      show ?thesis unfolding w walk_post_def
        using lt seg bad by (auto intro!: exI[of _ index])
    qed
  next
    case sil: False
    note stp = step_silence_walked[OF Suc.prems(1) lt sil, of env]
    let ?st' = "step_silence env index st"
    have w: "walk env index st = walk env (Suc index) ?st'"
      using lts stp(1) by (simp add: walk.simps[of env index st])
    have "n = length fl - Suc index" using Suc.hyps(2) by simp
    moreover note stp(2)
    moreover have "Suc index \<le> length fl" using lt by simp
    ultimately have IH: "walk_post fl (Suc index) ?st' (walk env (Suc index) ?st')"
      by (rule Suc.hyps(1))
    obtain r st'' where r: "walk env (Suc index) ?st' = (r, st'')" by (cases "walk env (Suc index) ?st'")
    have wb: "\<And>b. index < b \<Longrightarrow> written_between fl index b = written_between fl (Suc index) b"
      using sil by (simp add: written_between_step)
    have wr: "written ?st' = written st" by (simp add: step_silence_fields)
    show ?thesis
    proof (cases r)
      case None
      with IH r have
        a: "\<forall>k. Suc index \<le> k \<and> k < length fl \<and> entry_kind (fl ! k) = segment \<longrightarrow> adjusted_ok fl k"
        and b: "written st'' = written ?st' @ written_between fl (Suc index) (length fl)"
        and c: "full_list st'' = walked fl (length fl)"
        by (simp_all add: walk_post_def)
      have a': "\<forall>k. index \<le> k \<and> k < length fl \<and> entry_kind (fl ! k) = segment \<longrightarrow> adjusted_ok fl k"
        using a sil by (metis Suc_leI le_neq_implies_less)
      show ?thesis unfolding w r None walk_post_def
        using a' b c wb[OF lt] wr by simp
    next
      case (Some e)
      with IH r obtain j where j: "Suc index \<le> j" "j < length fl" "entry_kind (fl ! j) = segment"
        "\<not> adjusted_ok fl j"
        "\<forall>k. Suc index \<le> k \<and> k < j \<and> entry_kind (fl ! k) = segment \<longrightarrow> adjusted_ok fl k"
        "e = Invalid_segment (entry_start (adjust fl j)) (entry_end (adjust fl j))"
        "written st'' = written ?st' @ written_between fl (Suc index) j"
        "full_list st'' = walked fl (Suc j)"
        by (auto simp: walk_post_def)
      have a': "\<forall>k. index \<le> k \<and> k < j \<and> entry_kind (fl ! k) = segment \<longrightarrow> adjusted_ok fl k"
        using j(5) sil by (metis Suc_leI le_neq_implies_less)
      have ij: "index < j" using j(1) by simp
      have "written st'' = written st @ written_between fl index j"
        using j(7) wb[OF ij] wr by simp
      then show ?thesis unfolding w r Some walk_post_def
        using a' j(1-4,6,8) ij by (auto intro!: exI[of _ j])
    qed
  qed
qed


section \<open>The invariant violation\<close>

lemma expand_subtract_post:
  assumes "segments \<noteq> []"
  shows "walk_post (merge_timeline segments sil) 0
           \<lparr>full_list = merge_timeline segments sil, written = [],
             non_speech_srt_entries = [], non_speech_file_counter = 1\<rparr>
           (expand_subtract env sil segments)"
proof -
  let ?st = "\<lparr>full_list = merge_timeline segments sil, written = [],
             non_speech_srt_entries = [], non_speech_file_counter = 1\<rparr>"
  have "walk_post (merge_timeline segments sil) 0 ?st (walk env 0 ?st)"
    by (rule walk_post_walk) simp_all
  then show ?thesis using assms by (simp add: expand_subtract_def)
qed

lemma merge_timeline_Nil_kind:
  "e \<in> set (merge_timeline [] sil) \<Longrightarrow> entry_kind e = silence"
  by (auto simp: merge_timeline_def silence_entry_def)

lemma written_between_ok:
  assumes "\<forall>k. a \<le> k \<and> k < b \<and> entry_kind (fl ! k) = segment \<longrightarrow> adjusted_ok fl k"
  shows "list_all (\<lambda>w. start_time w \<le> end_time w) (written_between fl a b)"
proof -
  have "\<And>e. entry_start e \<le> entry_end e \<Longrightarrow> start_time (written_record e) \<le> end_time (written_record e)"
    by (case_tac e) auto
  then show ?thesis using assms
    by (auto simp: written_between_def list_all_iff adjusted_ok_def)
qed

text \<open>
  C3. In expand/subtract mode, if the adjustment of some subtitle entry of the merged
  timeline yields \<open>start > end\<close>, the pass raises the invariant-violation error: it
  stops at the first such entry \<open>j\<close> with the error that names the two adjusted times,
  the records written are exactly those of the subtitle entries before \<open>j\<close>, and every
  written record has \<open>start \<le> end\<close>, so no such segment is written and none is clamped.
\<close>

theorem expand_subtract_raises:
  assumes "i < length (merge_timeline segments sil)"
    and "entry_kind (merge_timeline segments sil ! i) = segment"
    and "entry_start (adjust (merge_timeline segments sil) i)
           > entry_end (adjust (merge_timeline segments sil) i)"
  shows "\<exists>j\<le>i. entry_start (adjust (merge_timeline segments sil) j)
                  > entry_end (adjust (merge_timeline segments sil) j)
           \<and> fst (expand_subtract env sil segments)
               = Some (Invalid_segment (entry_start (adjust (merge_timeline segments sil) j))
                                       (entry_end (adjust (merge_timeline segments sil) j)))
           \<and> written (snd (expand_subtract env sil segments))
               = written_between (merge_timeline segments sil) 0 j
           \<and> list_all (\<lambda>w. start_time w \<le> end_time w)
               (written (snd (expand_subtract env sil segments)))"
proof -
  let ?fl = "merge_timeline segments sil"
  have ne: "segments \<noteq> []"
  proof
    assume "segments = []"
    then have "entry_kind (?fl ! i) = silence"
      using assms(1) merge_timeline_Nil_kind[of "?fl ! i" sil] by simp
    then show False using assms(2) by simp
  qed
  have bad: "\<not> adjusted_ok ?fl i" using assms(3) by (simp add: adjusted_ok_def)
  obtain r st' where r: "expand_subtract env sil segments = (r, st')"
    by (cases "expand_subtract env sil segments")
  have post: "walk_post ?fl 0 \<lparr>full_list = ?fl, written = [],
             non_speech_srt_entries = [], non_speech_file_counter = 1\<rparr> (r, st')"
    using expand_subtract_post[OF ne, of sil env] r by simp
  show ?thesis
  proof (cases r)
    case None
    then have "adjusted_ok ?fl i" using post assms(1,2) by (simp add: walk_post_def)
    then show ?thesis using bad by simp
  next
    case (Some e)
    then obtain j where j: "j < length ?fl" "entry_kind (?fl ! j) = segment" "\<not> adjusted_ok ?fl j"
      "\<forall>k. 0 \<le> k \<and> k < j \<and> entry_kind (?fl ! k) = segment \<longrightarrow> adjusted_ok ?fl k"
      "e = Invalid_segment (entry_start (adjust ?fl j)) (entry_end (adjust ?fl j))"
      "written st' = written_between ?fl 0 j"
      using post by (auto simp: walk_post_def)
    have "j \<le> i"
    proof (rule ccontr)
      assume "\<not> j \<le> i"
      then have "adjusted_ok ?fl i" using j(4) assms(2) by simp
      then show False using bad by simp
    qed
    moreover have "list_all (\<lambda>w. start_time w \<le> end_time w) (written st')"
      unfolding j(6) by (rule written_between_ok) (use j(4) in simp)
    ultimately show ?thesis using j(3,5,6) r Some
      by (intro exI[of _ j]) (simp add: adjusted_ok_def not_le)
  qed
qed

text \<open>
  Two subtitles and two overlapping silences: the first subtitle is written, the second
  is adjusted to \<open>start = 5\<close>, \<open>end = 2\<close> and raises.
\<close>

theorem expand_subtract_raises_witness:
  "fst (expand_subtract no_ns_env [(0, 5), (2, 3)]
      [\<lparr>index_of = 1, start_time = 0, end_time = 1, text_of = ''a''\<rparr>,
       \<lparr>index_of = 2, start_time = 1, end_time = 10, text_of = ''b''\<rparr>])
     = Some (Invalid_segment 5 2)
   \<and> written (snd (expand_subtract no_ns_env [(0, 5), (2, 3)]
      [\<lparr>index_of = 1, start_time = 0, end_time = 1, text_of = ''a''\<rparr>,
       \<lparr>index_of = 2, start_time = 1, end_time = 10, text_of = ''b''\<rparr>]))
     = [\<lparr>index_of = 1, start_time = 0, end_time = 0, text_of = ''a''\<rparr>]"
proof -
  let ?segs = "[\<lparr>index_of = 1, start_time = 0, end_time = 1, text_of = ''a''\<rparr>,
       \<lparr>index_of = 2, start_time = 1, end_time = 10, text_of = ''b''\<rparr>]"
  let ?sil = "[(0, 5), (2, 3)] :: silence_segment list"
  have "\<exists>j\<le>2. entry_start (adjust (merge_timeline ?segs ?sil) j)
                  > entry_end (adjust (merge_timeline ?segs ?sil) j)
           \<and> fst (expand_subtract no_ns_env ?sil ?segs)
               = Some (Invalid_segment (entry_start (adjust (merge_timeline ?segs ?sil) j))
                                       (entry_end (adjust (merge_timeline ?segs ?sil) j)))
           \<and> written (snd (expand_subtract no_ns_env ?sil ?segs))
               = written_between (merge_timeline ?segs ?sil) 0 j
           \<and> list_all (\<lambda>w. start_time w \<le> end_time w)
               (written (snd (expand_subtract no_ns_env ?sil ?segs)))"
    by (rule expand_subtract_raises; code_simp)
  moreover have "fst (expand_subtract no_ns_env ?sil ?segs) = Some (Invalid_segment 5 2)"
    by code_simp
  moreover have "written (snd (expand_subtract no_ns_env ?sil ?segs))
     = [\<lparr>index_of = 1, start_time = 0, end_time = 0, text_of = ''a''\<rparr>]"
    by code_simp
  ultimately show ?thesis by simp
qed


section \<open>Order of the written records and subtitles between two silences\<close>

lemma insort_key_map:
  "insort_key f (g x) (map g xs) = map g (insort_key (\<lambda>y. f (g y)) x xs)"
  by (induction xs) simp_all

lemma sort_key_map:
  "sort_key f (map g xs) = map g (sort_key (\<lambda>y. f (g y)) xs)"
  by (induction xs) (simp_all add: insort_key_map)

lemma segments_of_merge_timeline:
  "filter (\<lambda>e. entry_kind e = segment) (merge_timeline segments sil)
     = map segment_entry (sort_key start_time segments)"
proof -
  have a: "filter (\<lambda>e. entry_kind e = segment) (map segment_entry segments) = map segment_entry segments"
    by (simp add: filter_map comp_def segment_entry_def)
  have b: "filter (\<lambda>e. entry_kind e = segment) (map silence_entry sil) = []"
    by (simp add: filter_map comp_def silence_entry_def)
  have "filter (\<lambda>e. entry_kind e = segment) (merge_timeline segments sil)
          = sort_key entry_start (map segment_entry segments)"
    unfolding merge_timeline_def filter_sort filter_append a b by simp
  also have "\<dots> = map segment_entry (sort_key (\<lambda>s. entry_start (segment_entry s)) segments)"
    by (rule sort_key_map)
  also have "(\<lambda>s. entry_start (segment_entry s)) = start_time"
    by (simp add: segment_entry_def fun_eq_iff)
  finally show ?thesis .
qed

lemma index_of_written_record_adjust:
  "index_of (written_record (adjust fl k)) = index_of (written_record (fl ! k))"
  by (cases "fl ! k") (simp_all add: adjust_def Let_def)

lemma map_filter_nth:
  "map (\<lambda>k. f (xs ! k)) (filter (\<lambda>k. P (xs ! k)) [0..<length xs]) = map f (filter P xs)"
proof -
  have "map f (filter P (map ((!) xs) [0..<length xs]))
          = map (\<lambda>k. f (xs ! k)) (filter (\<lambda>k. P (xs ! k)) [0..<length xs])"
    by (simp add: filter_map comp_def)
  then show ?thesis by (simp add: map_nth)
qed

lemma index_of_written_all:
  "map index_of (written_between (merge_timeline segments sil) 0 (length (merge_timeline segments sil)))
     = map index_of (sort_key start_time segments)"
proof -
  let ?fl = "merge_timeline segments sil"
  have "map index_of (written_between ?fl 0 (length ?fl))
          = map (\<lambda>k. index_of (written_record (?fl ! k)))
              (filter (\<lambda>k. entry_kind (?fl ! k) = segment) [0..<length ?fl])"
    by (simp add: written_between_def comp_def index_of_written_record_adjust)
  also have "\<dots> = map (\<lambda>e. index_of (written_record e)) (filter (\<lambda>e. entry_kind e = segment) ?fl)"
    by (rule map_filter_nth)
  also have "\<dots> = map index_of (sort_key start_time segments)"
    by (simp add: segments_of_merge_timeline comp_def segment_entry_def)
  finally show ?thesis .
qed

text \<open>
  What the walk does with the order: when the pass succeeds, the records are written in
  the order of the merged timeline, by ascending original start time. Where the start
  times do not decrease along the input list this is the index order of the input.
\<close>

lemma expand_subtract_written_follows_timeline:
  assumes "fst (expand_subtract env sil segments) = None"
  shows "map index_of (written (snd (expand_subtract env sil segments)))
           = map index_of (sort_key start_time segments)
       \<and> (sorted (map start_time segments) \<longrightarrow>
            map index_of (written (snd (expand_subtract env sil segments))) = map index_of segments)"
proof -
  have a: "map index_of (written (snd (expand_subtract env sil segments)))
           = map index_of (sort_key start_time segments)"
  proof (cases "segments = []")
    case True
    then show ?thesis by (simp add: expand_subtract_def)
  next
    case False
    obtain r st' where r: "expand_subtract env sil segments = (r, st')"
      by (cases "expand_subtract env sil segments")
    have "r = None" using assms r by simp
    then have "written st' = written_between (merge_timeline segments sil) 0
                 (length (merge_timeline segments sil))"
      using expand_subtract_post[OF False, of sil env] r by (simp add: walk_post_def)
    then show ?thesis using r by (simp add: index_of_written_all)
  qed
  moreover have "sorted (map start_time segments) \<longrightarrow> sort_key start_time segments = segments"
    by (simp add: sort_key_id_if_sorted)
  ultimately show ?thesis by simp
qed

text \<open>
  C5. The corrected subtitle records are to be written in original index order. Subtitle 1
  at \<open>[5, 6]\<close> and subtitle 2 at \<open>[1, 2]\<close> are both valid and come from the parser in
  index order. Expand/subtract mode succeeds on them and writes 2, then 1, since it
  writes while it walks the list sorted by start; subtract-only mode writes the same
  input as 1, then 2.
\<close>

theorem expand_subtract_breaks_index_order:
  "map index_of
     [\<lparr>index_of = 1, start_time = 5, end_time = 6, text_of = ''a''\<rparr>,
      \<lparr>index_of = 2, start_time = 1, end_time = 2, text_of = ''b''\<rparr>] = [1, 2]
   \<and> fst (expand_subtract no_ns_env []
      [\<lparr>index_of = 1, start_time = 5, end_time = 6, text_of = ''a''\<rparr>,
       \<lparr>index_of = 2, start_time = 1, end_time = 2, text_of = ''b''\<rparr>]) = None
   \<and> map index_of (written (snd (expand_subtract no_ns_env []
      [\<lparr>index_of = 1, start_time = 5, end_time = 6, text_of = ''a''\<rparr>,
       \<lparr>index_of = 2, start_time = 1, end_time = 2, text_of = ''b''\<rparr>]))) = [2, 1]
   \<and> map index_of (subtract_only []
      [\<lparr>index_of = 1, start_time = 5, end_time = 6, text_of = ''a''\<rparr>,
       \<lparr>index_of = 2, start_time = 1, end_time = 2, text_of = ''b''\<rparr>]) = [1, 2]"
  by code_simp

text \<open>
  C4 (as amended). In expand/subtract mode, when the pass succeeds, a subtitle entry whose
  neighbours in the merged timeline are both silence entries is written with its end at
  the start of the following silence; its start is the end of the preceding silence if
  that silence ends strictly before the subtitle's original end, and stays the original
  start otherwise.
\<close>

theorem expand_subtract_spans_gap:
  assumes "fst (expand_subtract env sil segments) = None"
    and "1 \<le> i" "i + 1 < length (merge_timeline segments sil)"
    and "entry_kind (merge_timeline segments sil ! i) = segment"
    and "entry_kind (merge_timeline segments sil ! (i - 1)) = silence"
    and "entry_kind (merge_timeline segments sil ! (i + 1)) = silence"
  shows "entry_start (full_list (snd (expand_subtract env sil segments)) ! i)
           = (if entry_end (merge_timeline segments sil ! (i - 1))
                   < entry_end (merge_timeline segments sil ! i)
              then entry_end (merge_timeline segments sil ! (i - 1))
              else entry_start (merge_timeline segments sil ! i))
       \<and> entry_end (full_list (snd (expand_subtract env sil segments)) ! i)
           = entry_start (merge_timeline segments sil ! (i + 1))
       \<and> written_record (full_list (snd (expand_subtract env sil segments)) ! i)
           \<in> set (written (snd (expand_subtract env sil segments)))"
proof -
  let ?fl = "merge_timeline segments sil"
  have il: "i < length ?fl" using assms(3) by simp
  have ne: "segments \<noteq> []"
  proof
    assume "segments = []"
    then have "entry_kind (?fl ! i) = silence"
      using il merge_timeline_Nil_kind[of "?fl ! i" sil] by simp
    then show False using assms(4) by simp
  qed
  obtain r st' where r: "expand_subtract env sil segments = (r, st')"
    by (cases "expand_subtract env sil segments")
  have "r = None" using assms(1) r by simp
  then have w: "written st' = written_between ?fl 0 (length ?fl)"
    and f: "full_list st' = walked ?fl (length ?fl)"
    using expand_subtract_post[OF ne, of sil env] r by (simp_all add: walk_post_def)
  have fi: "full_list st' ! i = adjust ?fl i"
    using f il assms(4) by (simp add: nth_walked)
  have st: "entry_start (adjust ?fl i)
           = (if entry_end (?fl ! (i - 1)) < entry_end (?fl ! i)
              then entry_end (?fl ! (i - 1)) else entry_start (?fl ! i))"
    using assms(2,3,5,6) by (cases "?fl ! i") (simp_all add: adjust_def Let_def)
  have en: "entry_end (adjust ?fl i) = entry_start (?fl ! (i + 1))"
    using assms(2,3,5,6) by (cases "?fl ! i") (simp_all add: adjust_def Let_def)
  have "i \<in> set (filter (\<lambda>k. entry_kind (?fl ! k) = segment) [0..<length ?fl])"
    using il assms(4) by simp
  then have "written_record (adjust ?fl i) \<in> set (written st')"
    unfolding w written_between_def by (simp add: image_iff) blast
  then show ?thesis using r fi st en by simp
qed

text \<open>
  A subtitle \<open>[1, 3]\<close> between the silences \<open>[0, 2]\<close> and \<open>[6, 7]\<close> becomes \<open>[2, 6]\<close>.
\<close>

theorem expand_subtract_spans_gap_witness:
  "fst (expand_subtract no_ns_env [(0, 2), (6, 7)]
      [\<lparr>index_of = 1, start_time = 1, end_time = 3, text_of = ''a''\<rparr>]) = None
   \<and> merge_timeline [\<lparr>index_of = 1, start_time = 1, end_time = 3, text_of = ''a''\<rparr>] [(0, 2), (6, 7)]
       = [Silence_entry 0 2, Segment_entry 1 3 ''a'' 1, Silence_entry 6 7]
   \<and> entry_start (full_list (snd (expand_subtract no_ns_env [(0, 2), (6, 7)]
      [\<lparr>index_of = 1, start_time = 1, end_time = 3, text_of = ''a''\<rparr>])) ! 1) = 2
   \<and> entry_end (full_list (snd (expand_subtract no_ns_env [(0, 2), (6, 7)]
      [\<lparr>index_of = 1, start_time = 1, end_time = 3, text_of = ''a''\<rparr>])) ! 1) = 6"
proof -
  let ?segs = "[\<lparr>index_of = 1, start_time = 1, end_time = 3, text_of = ''a''\<rparr>]"
  let ?sil = "[(0, 2), (6, 7)] :: silence_segment list"
  have m: "merge_timeline ?segs ?sil = [Silence_entry 0 2, Segment_entry 1 3 ''a'' 1, Silence_entry 6 7]"
    by code_simp
  have n: "fst (expand_subtract no_ns_env ?sil ?segs) = None" by code_simp
  have "entry_start (full_list (snd (expand_subtract no_ns_env ?sil ?segs)) ! 1)
           = (if entry_end (merge_timeline ?segs ?sil ! (1 - 1))
                   < entry_end (merge_timeline ?segs ?sil ! 1)
              then entry_end (merge_timeline ?segs ?sil ! (1 - 1))
              else entry_start (merge_timeline ?segs ?sil ! 1))
       \<and> entry_end (full_list (snd (expand_subtract no_ns_env ?sil ?segs)) ! 1)
           = entry_start (merge_timeline ?segs ?sil ! (1 + 1))
       \<and> written_record (full_list (snd (expand_subtract no_ns_env ?sil ?segs)) ! 1)
           \<in> set (written (snd (expand_subtract no_ns_env ?sil ?segs)))"
    by (rule expand_subtract_spans_gap[OF n]; code_simp)
  then show ?thesis using m n by (simp del: One_nat_def)
qed

text \<open>
  C4 as stated fails: the subtitle \<open>[1, 3]\<close> between the silences \<open>[0, 5]\<close> and \<open>[6, 7]\<close>
  is written as \<open>[1, 6]\<close>; its start is not moved to 5, because the preceding silence
  does not end before the subtitle's original end.
\<close>

theorem expand_subtract_gap_counterexample:
  "merge_timeline [\<lparr>index_of = 1, start_time = 1, end_time = 3, text_of = ''a''\<rparr>] [(0, 5), (6, 7)]
       = [Silence_entry 0 5, Segment_entry 1 3 ''a'' 1, Silence_entry 6 7]
   \<and> expand_subtract no_ns_env [(0, 5), (6, 7)]
        [\<lparr>index_of = 1, start_time = 1, end_time = 3, text_of = ''a''\<rparr>]
       = (None, \<lparr>full_list = [Silence_entry 0 5, Segment_entry 1 6 ''a'' 1, Silence_entry 6 7],
                 written = [\<lparr>index_of = 1, start_time = 1, end_time = 6, text_of = ''a''\<rparr>],
                 non_speech_srt_entries = [], non_speech_file_counter = 1\<rparr>)"
  by code_simp


section \<open>Orphan regions between two silences\<close>

lemma orphan_ranges_step:
  "a < b \<Longrightarrow> orphan_ranges fl a b =
     (if entry_kind (fl ! a) = silence \<and> a + 1 < length fl \<and> entry_kind (fl ! (a + 1)) = silence
      then [(entry_end (fl ! a) + analysis_window, entry_start (fl ! (a + 1)) - analysis_window)]
      else []) @ orphan_ranges fl (Suc a) b"
  by (simp add: orphan_ranges_def upt_conv_Cons)

lemma orphan_ranges_empty [simp]: "orphan_ranges fl a a = []"
  by (simp add: orphan_ranges_def)

lemma kind_cases: "entry_kind e \<noteq> segment \<longleftrightarrow> entry_kind e = silence"
  by (cases e) auto

lemma step_silence_good:
  assumes "non_speech_dir env" "loaded_audio_for_ns env" "\<forall>c a b. save_ok env c a b"
  shows "step_silence env i st =
     (if i + 1 < length (full_list st) \<and> entry_kind (full_list st ! (i + 1)) = silence
         \<and> entry_end (full_list st ! i) + analysis_window
             < entry_start (full_list st ! (i + 1)) - analysis_window
      then st\<lparr>non_speech_srt_entries := non_speech_srt_entries st @
                 [\<lparr>index_of = non_speech_file_counter st,
                   start_time = entry_end (full_list st ! i) + analysis_window,
                   end_time = entry_start (full_list st ! (i + 1)) - analysis_window,
                   text_of = srt_text (full_list st) i\<rparr>],
               non_speech_file_counter := non_speech_file_counter st + 1\<rparr>
      else st)"
  using assms by (simp add: step_silence_def Let_def)

lemma walk_entries:
  assumes "full_list st = walked fl index" "index \<le> length fl"
    and "non_speech_dir env" "loaded_audio_for_ns env" "\<forall>c a b. save_ok env c a b"
    and "fst (walk env index st) = None"
  shows "map ns_view (non_speech_srt_entries (snd (walk env index st)))
           = map ns_view (non_speech_srt_entries st)
             @ enumerate (non_speech_file_counter st)
                 (filter (\<lambda>(a, b). a < b) (orphan_ranges fl index (length fl)))"
  using assms(1,2,6)
proof (induction "length fl - index" arbitrary: index st)
  case 0
  then have i: "index = length fl" by simp
  have "\<not> index < length (full_list st)" using i 0 by simp
  then have "walk env index st = (None, st)"
    by (subst walk.simps) simp
  then show ?case using i by simp
next
  case (Suc n)
  then have lt: "index < length fl" by simp
  have lts: "index < length (full_list st)" using lt Suc.prems by simp
  have n: "n = length fl - Suc index" using Suc.hyps(2) by simp
  have le: "Suc index \<le> length fl" using lt by simp
  show ?case
  proof (cases "entry_kind (fl ! index) = segment")
    case seg: True
    note stp = step_segment_walked[OF Suc.prems(1) lt seg, of env]
    let ?st' = "st\<lparr>full_list := walked fl (Suc index),
                      written := written st @ [written_record (adjust fl index)]\<rparr>"
    have ok: "adjusted_ok fl index"
    proof (rule ccontr)
      assume "\<not> adjusted_ok fl index"
      then have "fst (walk env index st) \<noteq> None"
        using lts stp by (simp add: walk.simps[of env index st])
      then show False using Suc.prems(3) by simp
    qed
    have w: "walk env index st = walk env (Suc index) ?st'"
      using lts stp ok by (simp add: walk.simps[of env index st])
    have f: "full_list ?st' = walked fl (Suc index)" by simp
    have s: "fst (walk env (Suc index) ?st') = None" using Suc.prems(3) w by simp
    have IH: "map ns_view (non_speech_srt_entries (snd (walk env (Suc index) ?st')))
           = map ns_view (non_speech_srt_entries ?st')
             @ enumerate (non_speech_file_counter ?st')
                 (filter (\<lambda>(a, b). a < b) (orphan_ranges fl (Suc index) (length fl)))"
      by (rule Suc.hyps(1)[OF n f le s])
    have o: "orphan_ranges fl index (length fl) = orphan_ranges fl (Suc index) (length fl)"
      using seg by (simp add: orphan_ranges_step[OF lt])
    show ?thesis unfolding w o using IH by simp
  next
    case sil: False
    then have silk: "entry_kind (fl ! index) = silence" by (simp add: kind_cases)
    note stp = step_silence_walked[OF Suc.prems(1) lt sil, of env]
    let ?st' = "step_silence env index st"
    have w: "walk env index st = walk env (Suc index) ?st'"
      using lts stp(1) by (simp add: walk.simps[of env index st])
    have s: "fst (walk env (Suc index) ?st') = None" using Suc.prems(3) w by simp
    have IH: "map ns_view (non_speech_srt_entries (snd (walk env (Suc index) ?st')))
           = map ns_view (non_speech_srt_entries ?st')
             @ enumerate (non_speech_file_counter ?st')
                 (filter (\<lambda>(a, b). a < b) (orphan_ranges fl (Suc index) (length fl)))"
      by (rule Suc.hyps(1)[OF n stp(2) le s])
    have cur: "full_list st ! index = fl ! index"
      using Suc.prems(1) lt by (simp add: walked_ge)
    have nxt: "index + 1 < length fl \<Longrightarrow> full_list st ! (index + 1) = fl ! (index + 1)"
      using Suc.prems(1) by (simp add: walked_ge)
    have len: "length (full_list st) = length fl" using Suc.prems(1) by simp
    let ?c = "index + 1 < length fl \<and> entry_kind (fl ! (index + 1)) = silence"
    let ?a = "entry_end (fl ! index) + analysis_window"
    let ?b = "entry_start (fl ! (index + 1)) - analysis_window"
    show ?thesis
    proof (cases "?c \<and> ?a < ?b")
      case True
      have st': "?st' = st\<lparr>non_speech_srt_entries := non_speech_srt_entries st @
                 [\<lparr>index_of = non_speech_file_counter st, start_time = ?a, end_time = ?b,
                   text_of = srt_text (full_list st) index\<rparr>],
               non_speech_file_counter := non_speech_file_counter st + 1\<rparr>"
        using True cur nxt len by (simp add: step_silence_good[OF assms(3,4,5)])
      have o: "filter (\<lambda>(a, b). a < b) (orphan_ranges fl index (length fl))
                 = (?a, ?b) # filter (\<lambda>(a, b). a < b) (orphan_ranges fl (Suc index) (length fl))"
        using True silk by (simp add: orphan_ranges_step[OF lt])
      show ?thesis unfolding w o using IH unfolding st' by (simp add: ns_view_def)
    next
      case False
      have st': "?st' = st"
        using False cur nxt len by (auto simp: step_silence_good[OF assms(3,4,5)])
      have o: "filter (\<lambda>(a, b). a < b) (orphan_ranges fl index (length fl))
                 = filter (\<lambda>(a, b). a < b) (orphan_ranges fl (Suc index) (length fl))"
        using False silk by (auto simp: orphan_ranges_step[OF lt])
      show ?thesis unfolding w o using IH unfolding st' by simp
    qed
  qed
qed

text \<open>
  C9. In expand/subtract mode with a non-speech directory configured, the audio loaded and
  every clip saved, a pass that succeeds produces one non-speech entry for each pair of
  silence entries that are neighbours in the merged timeline and whose range, from the
  end of the first plus \<open>analysis_window\<close> to the start of the second minus
  \<open>analysis_window\<close>, has positive duration; the entries carry that range and are numbered
  from 1 in the order of detection. The step on a silence entry never raises; when the
  adjusted range is not of positive duration it leaves the state as it is, so the orphan
  is dropped and no entry is produced.
\<close>

theorem orphan_entries:
  assumes "non_speech_dir env" "loaded_audio_for_ns env" "\<forall>c a b. save_ok env c a b"
    and "fst (expand_subtract env sil segments) = None"
  shows "map ns_view (non_speech_srt_entries (snd (expand_subtract env sil segments)))
           = enumerate 1 (filter (\<lambda>(a, b). a < b)
               (orphan_ranges (merge_timeline segments sil) 0
                  (if segments = [] then 0 else length (merge_timeline segments sil))))
       \<and> (entry_kind (full_list st ! i) = silence \<longrightarrow>
            step env i st = (None,
              if i + 1 < length (full_list st) \<and> entry_kind (full_list st ! (i + 1)) = silence
                 \<and> entry_end (full_list st ! i) + analysis_window
                     < entry_start (full_list st ! (i + 1)) - analysis_window
              then st\<lparr>non_speech_srt_entries := non_speech_srt_entries st @
                         [\<lparr>index_of = non_speech_file_counter st,
                           start_time = entry_end (full_list st ! i) + analysis_window,
                           end_time = entry_start (full_list st ! (i + 1)) - analysis_window,
                           text_of = srt_text (full_list st) i\<rparr>],
                       non_speech_file_counter := non_speech_file_counter st + 1\<rparr>
              else st))"
proof (intro conjI impI)
  show "map ns_view (non_speech_srt_entries (snd (expand_subtract env sil segments)))
           = enumerate 1 (filter (\<lambda>(a, b). a < b)
               (orphan_ranges (merge_timeline segments sil) 0
                  (if segments = [] then 0 else length (merge_timeline segments sil))))"
  proof (cases "segments = []")
    case True
    then show ?thesis by (simp add: expand_subtract_def)
  next
    case False
    let ?st = "\<lparr>full_list = merge_timeline segments sil, written = [],
             non_speech_srt_entries = [], non_speech_file_counter = 1\<rparr>"
    have e: "expand_subtract env sil segments = walk env 0 ?st"
      using False by (simp add: expand_subtract_def)
    have "map ns_view (non_speech_srt_entries (snd (walk env 0 ?st)))
           = map ns_view (non_speech_srt_entries ?st)
             @ enumerate (non_speech_file_counter ?st)
                 (filter (\<lambda>(a, b). a < b) (orphan_ranges (merge_timeline segments sil) 0
                    (length (merge_timeline segments sil))))"
      by (rule walk_entries[OF _ _ assms(1,2,3)]) (use assms(4) e in simp_all)
    then show ?thesis using False e by simp
  qed
next
  assume "entry_kind (full_list st ! i) = silence"
  then show "step env i st = (None,
              if i + 1 < length (full_list st) \<and> entry_kind (full_list st ! (i + 1)) = silence
                 \<and> entry_end (full_list st ! i) + analysis_window
                     < entry_start (full_list st ! (i + 1)) - analysis_window
              then st\<lparr>non_speech_srt_entries := non_speech_srt_entries st @
                         [\<lparr>index_of = non_speech_file_counter st,
                           start_time = entry_end (full_list st ! i) + analysis_window,
                           end_time = entry_start (full_list st ! (i + 1)) - analysis_window,
                           text_of = srt_text (full_list st) i\<rparr>],
                       non_speech_file_counter := non_speech_file_counter st + 1\<rparr>
              else st)"
    by (simp add: step_def step_silence_good[OF assms(1,2,3)])
qed

text \<open>
  The silences \<open>[1, 2]\<close> and \<open>[4, 5]\<close> with one subtitle after them: exactly one entry,
  number 1, with the range \<open>[2 + analysis_window, 4 - analysis_window]\<close>, and the step at
  the first silence on its own.
\<close>

theorem orphan_entries_witness:
  "fst (expand_subtract ns_env_ok [(1, 2), (4, 5)]
     [\<lparr>index_of = 1, start_time = 6, end_time = 7, text_of = ''hi''\<rparr>]) = None
   \<and> merge_timeline [\<lparr>index_of = 1, start_time = 6, end_time = 7, text_of = ''hi''\<rparr>] [(1, 2), (4, 5)]
       = [Silence_entry 1 2, Silence_entry 4 5, Segment_entry 6 7 ''hi'' 1]
   \<and> map ns_view (non_speech_srt_entries (snd (expand_subtract ns_env_ok [(1, 2), (4, 5)]
        [\<lparr>index_of = 1, start_time = 6, end_time = 7, text_of = ''hi''\<rparr>])))
       = [(1, 2 + analysis_window, 4 - analysis_window)]
   \<and> fst (step ns_env_ok 0
        \<lparr>full_list = merge_timeline [\<lparr>index_of = 1, start_time = 6, end_time = 7, text_of = ''hi''\<rparr>]
                       [(1, 2), (4, 5)],
         written = [], non_speech_srt_entries = [], non_speech_file_counter = 1\<rparr>) = None"
proof -
  let ?segs = "[\<lparr>index_of = 1, start_time = 6, end_time = 7, text_of = ''hi''\<rparr>]"
  let ?sil = "[(1, 2), (4, 5)] :: silence_segment list"
  have n: "fst (expand_subtract ns_env_ok ?sil ?segs) = None" by code_simp
  have m: "merge_timeline ?segs ?sil = [Silence_entry 1 2, Silence_entry 4 5, Segment_entry 6 7 ''hi'' 1]"
    by code_simp
  have g: "non_speech_dir ns_env_ok" "loaded_audio_for_ns ns_env_ok" "\<forall>c a b. save_ok ns_env_ok c a b"
    by (simp_all add: ns_env_ok_def)
  have o: "enumerate 1 (filter (\<lambda>(a, b). a < b)
               (orphan_ranges (merge_timeline ?segs ?sil) 0
                  (if ?segs = [] then 0 else length (merge_timeline ?segs ?sil))))
            = [(1, 2 + analysis_window, 4 - analysis_window)]"
    by code_simp
  let ?st = "\<lparr>full_list = merge_timeline ?segs ?sil, written = [],
             non_speech_srt_entries = [], non_speech_file_counter = 1\<rparr>"
  have k: "entry_kind (full_list ?st ! 0) = silence" by code_simp
  note t = orphan_entries[OF g n, where st = ?st and i = 0]
  have "map ns_view (non_speech_srt_entries (snd (expand_subtract ns_env_ok ?sil ?segs)))
       = [(1, 2 + analysis_window, 4 - analysis_window)]"
    using t[THEN conjunct1] unfolding o .
  moreover have "fst (step ns_env_ok 0 ?st) = None"
    using t[THEN conjunct2] k by simp
  ultimately show ?thesis using n m by simp
qed


section \<open>Idempotence\<close>

subsection \<open>The merged timeline of well-formed inputs\<close>

lemma foldr_insort_Cons:
  assumes "\<forall>a \<in> set xs. f y < f a"
  shows "foldr (insort_key f) xs (y # ys) = y # foldr (insort_key f) xs ys"
  using assms by (induction xs) (auto simp: not_le)

lemma sort_merge_unique:
  assumes "sorted_wrt tie_order ys"
  shows "sort_key entry_start
           (filter (\<lambda>e. entry_kind e = segment) ys @ filter (\<lambda>e. entry_kind e = silence) ys) = ys"
  using assms
proof (induction ys)
  case Nil
  show ?case by simp
next
  case (Cons y ys)
  let ?A = "filter (\<lambda>e. entry_kind e = segment) ys"
  let ?B = "filter (\<lambda>e. entry_kind e = silence) ys"
  have IH: "sort_key entry_start (?A @ ?B) = ys" using Cons by simp
  have le: "\<forall>z \<in> set ys. entry_start y \<le> entry_start z"
    using Cons.prems by (auto simp: tie_order_def)
  show ?case
  proof (cases "entry_kind y = segment")
    case True
    then have "filter (\<lambda>e. entry_kind e = segment) (y # ys) @ filter (\<lambda>e. entry_kind e = silence) (y # ys)
                 = y # (?A @ ?B)" by simp
    then show ?thesis using IH le by (simp add: insort_is_Cons)
  next
    case False
    then have k: "entry_kind y = silence" by (simp add: kind_cases)
    have l: "filter (\<lambda>e. entry_kind e = segment) (y # ys) @ filter (\<lambda>e. entry_kind e = silence) (y # ys)
                 = ?A @ (y # ?B)" using k by simp
    have lt: "\<forall>a \<in> set ?A. entry_start y < entry_start a"
      using Cons.prems k by (auto simp: tie_order_def)
    have "insort_key entry_start y (sort_key entry_start ?B) = y # sort_key entry_start ?B"
      using le by (intro insort_is_Cons) simp
    then have "sort_key entry_start (?A @ (y # ?B))
                 = foldr (insort_key entry_start) ?A (y # sort_key entry_start ?B)"
      by (simp add: sort_key_append)
    also have "\<dots> = y # foldr (insort_key entry_start) ?A (sort_key entry_start ?B)"
      by (rule foldr_insort_Cons[OF lt])
    also have "foldr (insort_key entry_start) ?A (sort_key entry_start ?B) = ys"
      using IH by (simp add: sort_key_append)
    finally show ?thesis unfolding l .
  qed
qed

lemma sorted_wrt_filter_nth:
  assumes "sorted_wrt R (filter P xs)" "i < j" "j < length xs" "P (xs ! i)" "P (xs ! j)"
  shows "R (xs ! i) (xs ! j)"
  using assms
proof (induction xs arbitrary: i j)
  case Nil
  then show ?case by simp
next
  case (Cons x xs)
  obtain j' where j: "j = Suc j'" using Cons.prems(2) by (cases j) auto
  have j'l: "j' < length xs" using Cons.prems(3) j by simp
  have Pj: "P (xs ! j')" using Cons.prems(5) j by simp
  show ?case
  proof (cases i)
    case 0
    then have "P x" using Cons.prems(4) by simp
    then have "\<forall>z \<in> set (filter P xs). R x z" using Cons.prems(1) by simp
    moreover have "xs ! j' \<in> set (filter P xs)" using j'l Pj by simp
    ultimately show ?thesis using 0 j by simp
  next
    case (Suc i')
    have s: "sorted_wrt R (filter P xs)" using Cons.prems(1) by (cases "P x") simp_all
    have "R (xs ! i') (xs ! j')"
      by (rule Cons.IH[OF s]) (use Cons.prems Suc j in simp_all)
    then show ?thesis using Suc j by simp
  qed
qed

lemma silences_of_merge_timeline:
  "filter (\<lambda>e. entry_kind e = silence) (merge_timeline segments sil)
     = map silence_entry (sort_key fst sil)"
proof -
  have a: "filter (\<lambda>e. entry_kind e = silence) (map segment_entry segments) = []"
    by (simp add: filter_map comp_def segment_entry_def)
  have b: "filter (\<lambda>e. entry_kind e = silence) (map silence_entry sil) = map silence_entry sil"
    by (simp add: filter_map comp_def silence_entry_def)
  have "filter (\<lambda>e. entry_kind e = silence) (merge_timeline segments sil)
          = sort_key entry_start (map silence_entry sil)"
    unfolding merge_timeline_def filter_sort filter_append a b by simp
  also have "\<dots> = map silence_entry (sort_key (\<lambda>s. entry_start (silence_entry s)) sil)"
    by (rule sort_key_map)
  also have "(\<lambda>s. entry_start (silence_entry s)) = fst"
    by (simp add: silence_entry_def fun_eq_iff)
  finally show ?thesis .
qed

lemma sil_ok_sorted: "sil_ok sil \<Longrightarrow> sorted (map fst sil)"
proof -
  assume a: "sil_ok sil"
  then have s: "sorted_wrt (\<lambda>a b. snd a \<le> fst b) sil" and p: "\<forall>s \<in> set sil. fst s < snd s"
    by (simp_all add: sil_ok_def list_all_iff)
  have "sorted_wrt (\<lambda>a b. fst a \<le> fst b) sil"
    by (rule sorted_wrt_mono_rel[OF _ s]) (use p in fastforce)
  then show ?thesis by (simp add: sorted_map)
qed

lemma segs_ok_sorted: "segs_ok segs \<Longrightarrow> sorted (map start_time segs)"
proof -
  assume a: "segs_ok segs"
  then have s: "sorted_wrt (\<lambda>a b. end_time a \<le> start_time b) segs"
    and p: "\<forall>s \<in> set segs. start_time s \<le> end_time s"
    by (simp_all add: segs_ok_def list_all_iff)
  have "sorted_wrt (\<lambda>a b. start_time a \<le> start_time b) segs"
    by (rule sorted_wrt_mono_rel[OF _ s]) (use p in fastforce)
  then show ?thesis by (simp add: sorted_map)
qed

text \<open>Pairwise facts about the merged timeline of well-formed inputs.\<close>

lemma merge_silence_pair:
  assumes "sil_ok sil" "i < j" "j < length (merge_timeline segs sil)"
    and "entry_kind (merge_timeline segs sil ! i) = silence"
    and "entry_kind (merge_timeline segs sil ! j) = silence"
  shows "entry_end (merge_timeline segs sil ! i) \<le> entry_start (merge_timeline segs sil ! j)"
proof -
  let ?fl = "merge_timeline segs sil"
  have "filter (\<lambda>e. entry_kind e = silence) ?fl = map silence_entry sil"
    using sil_ok_sorted[OF assms(1)] by (simp add: silences_of_merge_timeline sort_key_id_if_sorted)
  moreover have "sorted_wrt (\<lambda>a b. entry_end a \<le> entry_start b) (map silence_entry sil)"
    using assms(1) by (simp add: sorted_wrt_map sil_ok_def silence_entry_def)
  ultimately have "sorted_wrt (\<lambda>a b. entry_end a \<le> entry_start b)
      (filter (\<lambda>e. entry_kind e = silence) ?fl)" by simp
  then show ?thesis by (rule sorted_wrt_filter_nth) (use assms in simp_all)
qed

lemma merge_segment_pair:
  assumes "segs_ok segs" "i < j" "j < length (merge_timeline segs sil)"
    and "entry_kind (merge_timeline segs sil ! i) = segment"
    and "entry_kind (merge_timeline segs sil ! j) = segment"
  shows "entry_end (merge_timeline segs sil ! i) \<le> entry_start (merge_timeline segs sil ! j)"
proof -
  let ?fl = "merge_timeline segs sil"
  have "filter (\<lambda>e. entry_kind e = segment) ?fl = map segment_entry segs"
    using segs_ok_sorted[OF assms(1)] by (simp add: segments_of_merge_timeline sort_key_id_if_sorted)
  moreover have "sorted_wrt (\<lambda>a b. entry_end a \<le> entry_start b) (map segment_entry segs)"
    using assms(1) by (simp add: sorted_wrt_map segs_ok_def segment_entry_def)
  ultimately have "sorted_wrt (\<lambda>a b. entry_end a \<le> entry_start b)
      (filter (\<lambda>e. entry_kind e = segment) ?fl)" by simp
  then show ?thesis by (rule sorted_wrt_filter_nth) (use assms in simp_all)
qed

lemma set_merge_timeline:
  "set (merge_timeline segs sil) = segment_entry ` set segs \<union> silence_entry ` set sil"
  by (simp add: merge_timeline_def)

lemma merge_silence_positive:
  assumes "sil_ok sil" "i < length (merge_timeline segs sil)"
    and "entry_kind (merge_timeline segs sil ! i) = silence"
  shows "entry_start (merge_timeline segs sil ! i) < entry_end (merge_timeline segs sil ! i)"
proof -
  have "merge_timeline segs sil ! i \<in> set (merge_timeline segs sil)" using assms(2) by simp
  then obtain a where "a \<in> set sil" "merge_timeline segs sil ! i = silence_entry a"
    using assms(3) by (auto simp: set_merge_timeline segment_entry_def)
  then show ?thesis using assms(1) by (auto simp: sil_ok_def list_all_iff silence_entry_def)
qed

lemma merge_silence_before_segment:
  assumes "ends_after sil segs" "i < j" "j < length (merge_timeline segs sil)"
    and "entry_kind (merge_timeline segs sil ! i) = silence"
    and "entry_kind (merge_timeline segs sil ! j) = segment"
  shows "entry_start (merge_timeline segs sil ! i) < entry_start (merge_timeline segs sil ! j)"
    and "entry_end (merge_timeline segs sil ! i) < entry_end (merge_timeline segs sil ! j)"
proof -
  let ?fl = "merge_timeline segs sil"
  have "tie_order (?fl ! i) (?fl ! j)"
    using tie_order_merge_timeline[of segs sil] assms(2,3) by (simp add: sorted_wrt_iff_nth_less)
  then show lt: "entry_start (?fl ! i) < entry_start (?fl ! j)"
    using assms(4,5) by (auto simp: tie_order_def)
  have "?fl ! i \<in> set ?fl" "?fl ! j \<in> set ?fl" using assms(2,3) by simp_all
  then obtain a s where as: "a \<in> set sil" "?fl ! i = silence_entry a"
      "s \<in> set segs" "?fl ! j = segment_entry s"
    using assms(4,5) by (auto simp: set_merge_timeline segment_entry_def silence_entry_def)
  have "fst a < start_time s" using lt as by (simp add: segment_entry_def silence_entry_def)
  then have "snd a < end_time s" using assms(1) as(1,3) by (auto simp: ends_after_def list_all_iff)
  then show "entry_end (?fl ! i) < entry_end (?fl ! j)"
    using as by (simp add: segment_entry_def silence_entry_def)
qed

subsection \<open>The walked timeline keeps its order\<close>

lemma start_set_start [simp]: "entry_start (set_start v e) = v"
  by (cases e) auto

lemma end_set_start [simp]: "entry_end (set_start v e) = entry_end e"
  by (cases e) auto

lemma start_set_end [simp]: "entry_start (set_end v e) = entry_start e"
  by (cases e) auto

lemma end_set_end [simp]: "entry_end (set_end v e) = v"
  by (cases e) auto

lemma set_start_id: "entry_start e = v \<Longrightarrow> set_start v e = e"
  by (cases e) auto

lemma set_end_id: "entry_end e = v \<Longrightarrow> set_end v e = e"
  by (cases e) auto

lemma adjust_start:
  "entry_start (adjust fl k) =
     (if 1 \<le> k \<and> entry_kind (fl ! (k - 1)) = silence \<and> entry_end (fl ! (k - 1)) < entry_end (fl ! k)
      then entry_end (fl ! (k - 1)) else entry_start (fl ! k))"
  by (simp add: adjust_def Let_def)

lemma adjust_end:
  "entry_end (adjust fl k) =
     (if k + 1 < length fl \<and> entry_kind (fl ! (k + 1)) = silence
      then entry_start (fl ! (k + 1)) else entry_end (fl ! k))"
  by (simp add: adjust_def Let_def)

text \<open>The new start of a subtitle entry of a well-formed merged timeline.\<close>

lemma merge_adjust_start:
  assumes "ends_after sil segs" "k < length (merge_timeline segs sil)"
    and "entry_kind (merge_timeline segs sil ! k) = segment"
  shows "entry_start (adjust (merge_timeline segs sil) k) =
     (if 1 \<le> k \<and> entry_kind (merge_timeline segs sil ! (k - 1)) = silence
      then entry_end (merge_timeline segs sil ! (k - 1))
      else entry_start (merge_timeline segs sil ! k))"
proof (cases "1 \<le> k \<and> entry_kind (merge_timeline segs sil ! (k - 1)) = silence")
  case True
  then have "entry_end (merge_timeline segs sil ! (k - 1)) < entry_end (merge_timeline segs sil ! k)"
    using merge_silence_before_segment(2)[OF assms(1) _ assms(2) _ assms(3), of "k - 1"] by simp
  then show ?thesis using True by (simp add: adjust_start)
next
  case False
  then show ?thesis by (auto simp: adjust_start)
qed

lemma merge_entry_valid:
  assumes "sil_ok sil" "segs_ok segs" "i < length (merge_timeline segs sil)"
  shows "entry_start (merge_timeline segs sil ! i) \<le> entry_end (merge_timeline segs sil ! i)"
proof -
  have "merge_timeline segs sil ! i \<in> set (merge_timeline segs sil)" using assms(3) by simp
  then show ?thesis using assms(1,2)
    by (auto simp: set_merge_timeline sil_ok_def segs_ok_def list_all_iff
        segment_entry_def silence_entry_def less_imp_le)
qed

lemma merge_start_mono:
  assumes "i < j" "j < length (merge_timeline segs sil)"
  shows "entry_start (merge_timeline segs sil ! i) \<le> entry_start (merge_timeline segs sil ! j)"
proof -
  have "tie_order (merge_timeline segs sil ! i) (merge_timeline segs sil ! j)"
    using tie_order_merge_timeline[of segs sil] assms by (simp add: sorted_wrt_iff_nth_less)
  then show ?thesis by (simp add: tie_order_def)
qed

lemma new_start_le_segment:
  assumes "sil_ok sil" "segs_ok segs" "ends_after sil segs"
    and "i < j" "j < length (merge_timeline segs sil)"
    and "entry_kind (merge_timeline segs sil ! i) = segment"
    and "entry_kind (merge_timeline segs sil ! j) = segment"
  shows "entry_start (adjust (merge_timeline segs sil) i) \<le> entry_start (merge_timeline segs sil ! j)"
proof -
  let ?fl = "merge_timeline segs sil"
  have il: "i < length ?fl" using assms(4,5) by simp
  have e: "entry_end (?fl ! i) \<le> entry_start (?fl ! j)"
    by (rule merge_segment_pair[OF assms(2,4,5,6,7)])
  have v: "entry_start (?fl ! i) \<le> entry_end (?fl ! i)"
    by (rule merge_entry_valid[OF assms(1,2) il])
  show ?thesis using e v by (auto simp: adjust_start)
qed

lemma new_start_le_silence:
  assumes "sil_ok sil"
    and "i < j" "j < length (merge_timeline segs sil)"
    and "entry_kind (merge_timeline segs sil ! i) = segment"
    and "entry_kind (merge_timeline segs sil ! j) = silence"
  shows "entry_start (adjust (merge_timeline segs sil) i) \<le> entry_start (merge_timeline segs sil ! j)"
proof -
  let ?fl = "merge_timeline segs sil"
  have a: "entry_start (?fl ! i) \<le> entry_start (?fl ! j)"
    by (rule merge_start_mono[OF assms(2,3)])
  have b: "1 \<le> i \<Longrightarrow> entry_kind (?fl ! (i - 1)) = silence \<Longrightarrow>
      entry_end (?fl ! (i - 1)) \<le> entry_start (?fl ! j)"
    using merge_silence_pair[OF assms(1) _ assms(3) _ assms(5), of "i - 1"] assms(2) by simp
  show ?thesis using a b by (auto simp: adjust_start)
qed

lemma silence_lt_new_start:
  assumes "sil_ok sil" "ends_after sil segs"
    and "i < j" "j < length (merge_timeline segs sil)"
    and "entry_kind (merge_timeline segs sil ! i) = silence"
    and "entry_kind (merge_timeline segs sil ! j) = segment"
  shows "entry_start (merge_timeline segs sil ! i) < entry_start (adjust (merge_timeline segs sil) j)"
proof -
  let ?fl = "merge_timeline segs sil"
  have il: "i < length ?fl" using assms(3,4) by simp
  have pos: "entry_start (?fl ! i) < entry_end (?fl ! i)"
    by (rule merge_silence_positive[OF assms(1) il assms(5)])
  show ?thesis
  proof (cases "1 \<le> j \<and> entry_kind (?fl ! (j - 1)) = silence")
    case True
    have n: "entry_start (adjust ?fl j) = entry_end (?fl ! (j - 1))"
      using merge_adjust_start[OF assms(2,4,6)] True by simp
    show ?thesis
    proof (cases "i = j - 1")
      case True
      then show ?thesis using n pos by simp
    next
      case False
      then have lt: "i < j - 1" using assms(3) by simp
      have jl: "j - 1 < length ?fl" using assms(4) by simp
      have "entry_end (?fl ! i) \<le> entry_start (?fl ! (j - 1))"
        using merge_silence_pair[OF assms(1) lt jl assms(5)] True by simp
      moreover have "entry_start (?fl ! (j - 1)) < entry_end (?fl ! (j - 1))"
        using merge_silence_positive[OF assms(1) jl] True by simp
      ultimately show ?thesis using n pos by simp
    qed
  next
    case False
    have n: "entry_start (adjust ?fl j) = entry_start (?fl ! j)"
      using merge_adjust_start[OF assms(2,4,6)] False by auto
    show ?thesis
      using merge_silence_before_segment(1)[OF assms(2,3,4,5,6)] n by simp
  qed
qed

lemma new_start_mono:
  assumes "sil_ok sil" "segs_ok segs" "ends_after sil segs"
    and "i < j" "j < length (merge_timeline segs sil)"
    and "entry_kind (merge_timeline segs sil ! i) = segment"
    and "entry_kind (merge_timeline segs sil ! j) = segment"
  shows "entry_start (adjust (merge_timeline segs sil) i) \<le> entry_start (adjust (merge_timeline segs sil) j)"
proof (cases "1 \<le> j \<and> entry_kind (merge_timeline segs sil ! (j - 1)) = silence")
  case True
  let ?fl = "merge_timeline segs sil"
  have n: "entry_start (adjust ?fl j) = entry_end (?fl ! (j - 1))"
    using merge_adjust_start[OF assms(3,5,7)] True by simp
  have "i \<noteq> j - 1" using True assms(6) by auto
  then have lt: "i < j - 1" using assms(4) by simp
  have jl: "j - 1 < length ?fl" using assms(5) by simp
  have "entry_start (adjust ?fl i) \<le> entry_start (?fl ! (j - 1))"
    using new_start_le_silence[OF assms(1) lt jl assms(6)] True by simp
  moreover have "entry_start (?fl ! (j - 1)) \<le> entry_end (?fl ! (j - 1))"
    by (rule merge_entry_valid[OF assms(1,2) jl])
  ultimately show ?thesis using n by simp
next
  case False
  have n: "entry_start (adjust (merge_timeline segs sil) j) = entry_start (merge_timeline segs sil ! j)"
    using merge_adjust_start[OF assms(3,5,7)] False by auto
  show ?thesis using new_start_le_segment[OF assms] n by simp
qed

lemma tie_order_walked:
  assumes "sil_ok sil" "segs_ok segs" "ends_after sil segs"
  shows "sorted_wrt tie_order (walked (merge_timeline segs sil) (length (merge_timeline segs sil)))"
proof -
  let ?fl = "merge_timeline segs sil"
  let ?n = "length ?fl"
  have "tie_order (walked ?fl ?n ! i) (walked ?fl ?n ! j)" if ij: "i < j" and jl: "j < ?n" for i j
  proof -
    have il: "i < ?n" using ij jl by simp
    show ?thesis
    proof (cases "entry_kind (?fl ! i) = segment")
      case si: True
      have wi: "walked ?fl ?n ! i = adjust ?fl i" using il si by (simp add: nth_walked)
      show ?thesis
      proof (cases "entry_kind (?fl ! j) = segment")
        case sj: True
        have wj: "walked ?fl ?n ! j = adjust ?fl j" using jl sj by (simp add: nth_walked)
        show ?thesis unfolding wi wj tie_order_def
          using new_start_mono[OF assms ij jl si sj] si by simp
      next
        case False
        then have sj: "entry_kind (?fl ! j) = silence" by (simp add: kind_cases)
        have wj: "walked ?fl ?n ! j = ?fl ! j" using jl sj by (simp add: nth_walked)
        show ?thesis unfolding wi wj tie_order_def
          using new_start_le_silence[OF assms(1) ij jl si sj] si by simp
      qed
    next
      case False
      then have si: "entry_kind (?fl ! i) = silence" by (simp add: kind_cases)
      have wi: "walked ?fl ?n ! i = ?fl ! i" using il si by (simp add: nth_walked)
      show ?thesis
      proof (cases "entry_kind (?fl ! j) = segment")
        case sj: True
        have wj: "walked ?fl ?n ! j = adjust ?fl j" using jl sj by (simp add: nth_walked)
        show ?thesis unfolding wi wj tie_order_def
          using silence_lt_new_start[OF assms(1,3) ij jl si sj] by simp
      next
        case False
        then have sj: "entry_kind (?fl ! j) = silence" by (simp add: kind_cases)
        have wj: "walked ?fl ?n ! j = ?fl ! j" using jl sj by (simp add: nth_walked)
        show ?thesis unfolding wi wj
          using tie_order_merge_timeline[of segs sil] ij jl by (simp add: sorted_wrt_iff_nth_less)
      qed
    qed
  qed
  then show ?thesis by (simp add: sorted_wrt_iff_nth_less)
qed

subsection \<open>A second pass of expand/subtract mode\<close>

lemma segment_entry_written_record:
  "entry_kind e = segment \<Longrightarrow> segment_entry (written_record e) = e"
  by (cases e) (simp_all add: segment_entry_def)

lemma segments_of_walked:
  "filter (\<lambda>e. entry_kind e = segment) (walked fl (length fl))
     = map (adjust fl) (filter (\<lambda>k. entry_kind (fl ! k) = segment) [0..<length fl])"
proof -
  let ?g = "\<lambda>j. if j < length fl \<and> entry_kind (fl ! j) = segment then adjust fl j else fl ! j"
  have "filter (\<lambda>e. entry_kind e = segment) (walked fl (length fl))
          = map ?g (filter (\<lambda>j. entry_kind (?g j) = segment) [0..<length fl])"
    by (simp add: walked_def filter_map comp_def)
  also have "filter (\<lambda>j. entry_kind (?g j) = segment) [0..<length fl]
          = filter (\<lambda>k. entry_kind (fl ! k) = segment) [0..<length fl]"
    by (rule filter_cong) auto
  also have "map ?g (filter (\<lambda>k. entry_kind (fl ! k) = segment) [0..<length fl])
          = map (adjust fl) (filter (\<lambda>k. entry_kind (fl ! k) = segment) [0..<length fl])"
    by (rule map_cong) auto
  finally show ?thesis .
qed

lemma silences_of_walked:
  "filter (\<lambda>e. entry_kind e = silence) (walked fl (length fl))
     = filter (\<lambda>e. entry_kind e = silence) fl"
proof -
  let ?g = "\<lambda>j. if j < length fl \<and> entry_kind (fl ! j) = segment then adjust fl j else fl ! j"
  have "filter (\<lambda>e. entry_kind e = silence) (walked fl (length fl))
          = map ?g (filter (\<lambda>j. entry_kind (?g j) = silence) [0..<length fl])"
    by (simp add: walked_def filter_map comp_def)
  also have "filter (\<lambda>j. entry_kind (?g j) = silence) [0..<length fl]
          = filter (\<lambda>k. entry_kind (fl ! k) = silence) [0..<length fl]"
    by (rule filter_cong) auto
  also have "map ?g (filter (\<lambda>k. entry_kind (fl ! k) = silence) [0..<length fl])
          = map (\<lambda>k. fl ! k) (filter (\<lambda>k. entry_kind (fl ! k) = silence) [0..<length fl])"
    by (rule map_cong) auto
  also have "\<dots> = map (\<lambda>e. e) (filter (\<lambda>e. entry_kind e = silence) fl)"
    by (rule map_filter_nth)
  finally show ?thesis by simp
qed

lemma written_all_walked:
  "written_between fl 0 (length fl)
     = map written_record (filter (\<lambda>e. entry_kind e = segment) (walked fl (length fl)))"
  by (simp add: written_between_def segments_of_walked comp_def)

lemma segment_entries_of_written:
  "map segment_entry (written_between fl 0 (length fl))
     = filter (\<lambda>e. entry_kind e = segment) (walked fl (length fl))"
proof -
  have "map segment_entry (written_between fl 0 (length fl))
          = map (\<lambda>e. segment_entry (written_record e))
              (filter (\<lambda>e. entry_kind e = segment) (walked fl (length fl)))"
    by (simp add: written_all_walked comp_def)
  also have "\<dots> = map (\<lambda>e. e) (filter (\<lambda>e. entry_kind e = segment) (walked fl (length fl)))"
    by (rule map_cong) (simp_all add: segment_entry_written_record)
  finally show ?thesis by simp
qed

text \<open>Merging the corrected subtitles with the same silences gives the walked timeline.\<close>

lemma merge_corrected:
  assumes "sil_ok sil" "segs_ok segs" "ends_after sil segs"
  shows "merge_timeline
           (written_between (merge_timeline segs sil) 0 (length (merge_timeline segs sil))) sil
         = walked (merge_timeline segs sil) (length (merge_timeline segs sil))"
proof -
  let ?fl = "merge_timeline segs sil"
  let ?fl' = "walked ?fl (length ?fl)"
  have s: "map silence_entry sil = filter (\<lambda>e. entry_kind e = silence) ?fl'"
    using sil_ok_sorted[OF assms(1)]
    by (simp add: silences_of_walked silences_of_merge_timeline sort_key_id_if_sorted)
  have a: "merge_timeline (written_between ?fl 0 (length ?fl)) sil
          = sort_key entry_start (map segment_entry (written_between ?fl 0 (length ?fl))
              @ map silence_entry sil)"
    by (fact merge_timeline_def)
  have b: "map segment_entry (written_between ?fl 0 (length ?fl))
          = filter (\<lambda>e. entry_kind e = segment) ?fl'"
    by (fact segment_entries_of_written)
  have "merge_timeline (written_between ?fl 0 (length ?fl)) sil
          = sort_key entry_start (filter (\<lambda>e. entry_kind e = segment) ?fl'
              @ filter (\<lambda>e. entry_kind e = silence) ?fl')"
    by (simp only: a b s)
  also have "\<dots> = ?fl'"
    by (rule sort_merge_unique[OF tie_order_walked[OF assms]])
  finally show ?thesis .
qed

text \<open>On the walked timeline nothing is left to adjust.\<close>

lemma adjust_walked_fixed:
  assumes "ends_after sil segs" "k < length (merge_timeline segs sil)"
    and "entry_kind (merge_timeline segs sil ! k) = segment"
  shows "adjust (walked (merge_timeline segs sil) (length (merge_timeline segs sil))) k
           = adjust (merge_timeline segs sil) k"
proof -
  let ?fl = "merge_timeline segs sil"
  let ?fl' = "walked ?fl (length ?fl)"
  let ?s = "adjust ?fl k"
  have cur: "?fl' ! k = ?s" using assms(2,3) by (simp add: nth_walked)
  have pk: "1 \<le> k \<Longrightarrow> entry_kind (?fl' ! (k - 1)) = entry_kind (?fl ! (k - 1))"
    using assms(2) by (intro kind_walked) simp
  have pv: "1 \<le> k \<Longrightarrow> entry_kind (?fl ! (k - 1)) = silence \<Longrightarrow> ?fl' ! (k - 1) = ?fl ! (k - 1)"
    using assms(2) by (intro walked_silence) simp_all
  have nk: "k + 1 < length ?fl \<Longrightarrow> entry_kind (?fl' ! (k + 1)) = entry_kind (?fl ! (k + 1))"
    by (intro kind_walked) simp
  have nv: "k + 1 < length ?fl \<Longrightarrow> entry_kind (?fl ! (k + 1)) = silence \<Longrightarrow>
      ?fl' ! (k + 1) = ?fl ! (k + 1)"
    by (intro walked_silence) simp_all
  have s1: "(if 1 \<le> k \<and> entry_kind (?fl' ! (k - 1)) = silence
                 \<and> entry_end (?fl' ! (k - 1)) < entry_end ?s
             then set_start (entry_end (?fl' ! (k - 1))) ?s else ?s) = ?s"
  proof (cases "1 \<le> k \<and> entry_kind (?fl ! (k - 1)) = silence")
    case True
    then have "entry_start ?s = entry_end (?fl ! (k - 1))"
      using merge_adjust_start[OF assms] by simp
    then have "set_start (entry_end (?fl' ! (k - 1))) ?s = ?s"
      using True pv by (simp add: set_start_id)
    then show ?thesis by simp
  next
    case False
    then show ?thesis using pk by auto
  qed
  have s2: "(if k + 1 < length ?fl' \<and> entry_kind (?fl' ! (k + 1)) = silence
             then set_end (entry_start (?fl' ! (k + 1))) ?s else ?s) = ?s"
  proof (cases "k + 1 < length ?fl \<and> entry_kind (?fl ! (k + 1)) = silence")
    case True
    then have "entry_end ?s = entry_start (?fl ! (k + 1))" by (simp add: adjust_end)
    then have "set_end (entry_start (?fl' ! (k + 1))) ?s = ?s"
      using True nv by (simp add: set_end_id)
    then show ?thesis by simp
  next
    case False
    then show ?thesis using nk by auto
  qed
  have "adjust ?fl' k = (let s = ?s;
          s1 = (if 1 \<le> k \<and> entry_kind (?fl' ! (k - 1)) = silence
                   \<and> entry_end (?fl' ! (k - 1)) < entry_end s
                then set_start (entry_end (?fl' ! (k - 1))) s else s);
          s2 = (if k + 1 < length ?fl' \<and> entry_kind (?fl' ! (k + 1)) = silence
                then set_end (entry_start (?fl' ! (k + 1))) s1 else s1)
      in s2)"
    unfolding adjust_def[of ?fl' k] cur ..
  also have "\<dots> = ?s" unfolding Let_def s1 s2 ..
  finally show ?thesis .
qed

lemma written_between_walked_fixed:
  assumes "ends_after sil segs"
  shows "written_between (walked (merge_timeline segs sil) (length (merge_timeline segs sil))) 0
           (length (merge_timeline segs sil))
         = written_between (merge_timeline segs sil) 0 (length (merge_timeline segs sil))"
proof -
  let ?fl = "merge_timeline segs sil"
  let ?fl' = "walked ?fl (length ?fl)"
  have f: "filter (\<lambda>k. entry_kind (?fl' ! k) = segment) [0..<length ?fl]
            = filter (\<lambda>k. entry_kind (?fl ! k) = segment) [0..<length ?fl]"
    by (rule filter_cong) auto
  have "map (\<lambda>k. written_record (adjust ?fl' k))
           (filter (\<lambda>k. entry_kind (?fl ! k) = segment) [0..<length ?fl])
        = map (\<lambda>k. written_record (adjust ?fl k))
           (filter (\<lambda>k. entry_kind (?fl ! k) = segment) [0..<length ?fl])"
    by (rule map_cong) (auto simp: adjust_walked_fixed[OF assms])
  then show ?thesis unfolding written_between_def f .
qed

text \<open>Expand/subtract mode applied to its own corrected output.\<close>

lemma expand_subtract_idempotent:
  assumes "sil_ok sil" "segs_ok segs" "ends_after sil segs"
    and "fst (expand_subtract env sil segs) = None"
  shows "fst (expand_subtract env sil (written (snd (expand_subtract env sil segs)))) = None
       \<and> written (snd (expand_subtract env sil (written (snd (expand_subtract env sil segs)))))
           = written (snd (expand_subtract env sil segs))"
proof (cases "segs = []")
  case True
  then show ?thesis by (simp add: expand_subtract_def)
next
  case ne: False
  let ?fl = "merge_timeline segs sil"
  let ?n = "length ?fl"
  let ?fl' = "walked ?fl ?n"
  let ?segs' = "written_between ?fl 0 ?n"
  obtain r st' where r: "expand_subtract env sil segs = (r, st')"
    by (cases "expand_subtract env sil segs")
  have rn: "r = None" using assms(4) r by simp
  have ok: "\<forall>k. 0 \<le> k \<and> k < ?n \<and> entry_kind (?fl ! k) = segment \<longrightarrow> adjusted_ok ?fl k"
    and w: "written st' = ?segs'"
    using expand_subtract_post[OF ne, of sil env] r rn by (simp_all add: walk_post_def)
  have m: "merge_timeline ?segs' sil = ?fl'"
    by (rule merge_corrected[OF assms(1,2,3)])
  show ?thesis
  proof (cases "?segs' = []")
    case True
    then show ?thesis using r w by (simp add: expand_subtract_def)
  next
    case ne': False
    obtain r2 st2 where r2: "expand_subtract env sil ?segs' = (r2, st2)"
      by (cases "expand_subtract env sil ?segs'")
    have post: "walk_post ?fl' 0 \<lparr>full_list = ?fl', written = [],
             non_speech_srt_entries = [], non_speech_file_counter = 1\<rparr> (r2, st2)"
      using expand_subtract_post[OF ne', of sil env] r2 m by simp
    have r2n: "r2 = None"
    proof (cases r2)
      case None
      then show ?thesis .
    next
      case (Some e)
      then obtain j where j: "j < length ?fl'" "entry_kind (?fl' ! j) = segment"
          "\<not> adjusted_ok ?fl' j"
        using post by (auto simp: walk_post_def)
      have jl: "j < ?n" using j(1) by simp
      have js: "entry_kind (?fl ! j) = segment" using j(2) jl by simp
      have "adjusted_ok ?fl j" using ok jl js by simp
      then have "adjusted_ok ?fl' j"
        by (simp add: adjusted_ok_def adjust_walked_fixed[OF assms(3) jl js])
      then show ?thesis using j(3) by simp
    qed
    then have "written st2 = written_between ?fl' 0 (length ?fl')"
      using post by (simp add: walk_post_def)
    then have "written st2 = ?segs'"
      by (simp add: written_between_walked_fixed[OF assms(3)])
    then show ?thesis using r w r2 r2n by simp
  qed
qed

subsection \<open>A second pass of subtract-only mode\<close>

lemma skip_silence_spec:
  "index \<le> skip_silence sil b index
   \<and> (\<forall>j. index \<le> j \<and> j < skip_silence sil b index \<longrightarrow> snd (sil ! j) < b)
   \<and> (skip_silence sil b index < length sil \<longrightarrow> b \<le> snd (sil ! skip_silence sil b index))
   \<and> (index \<le> length sil \<longrightarrow> skip_silence sil b index \<le> length sil)"
proof (induction sil b index rule: skip_silence.induct)
  case (1 sil bound index)
  show ?case
  proof (cases "index < length sil \<and> snd (sil ! index) < bound")
    case True
    then have e: "skip_silence sil bound index = skip_silence sil bound (index + 1)"
      by (subst skip_silence.simps) simp
    have IH: "index + 1 \<le> skip_silence sil bound (index + 1)
       \<and> (\<forall>j. index + 1 \<le> j \<and> j < skip_silence sil bound (index + 1) \<longrightarrow> snd (sil ! j) < bound)
       \<and> (skip_silence sil bound (index + 1) < length sil \<longrightarrow>
            bound \<le> snd (sil ! skip_silence sil bound (index + 1)))
       \<and> (index + 1 \<le> length sil \<longrightarrow> skip_silence sil bound (index + 1) \<le> length sil)"
      using 1 True by simp
    have "\<forall>j. index \<le> j \<and> j < skip_silence sil bound (index + 1) \<longrightarrow> snd (sil ! j) < bound"
    proof (intro allI impI)
      fix j assume j: "index \<le> j \<and> j < skip_silence sil bound (index + 1)"
      show "snd (sil ! j) < bound"
      proof (cases "j = index")
        case True
        then show ?thesis using \<open>index < length sil \<and> snd (sil ! index) < bound\<close> by simp
      next
        case False
        then have "index + 1 \<le> j" using j by simp
        then show ?thesis using IH j by blast
      qed
    qed
    then show ?thesis unfolding e using IH True by auto
  next
    case False
    then have e: "skip_silence sil bound index = index"
      by (subst skip_silence.simps) auto
    show ?thesis unfolding e using False by auto
  qed
qed

lemma skip_silence_unique:
  assumes "index \<le> r" "r \<le> length sil"
    and "\<forall>j. index \<le> j \<and> j < r \<longrightarrow> snd (sil ! j) < b"
    and "r < length sil \<longrightarrow> b \<le> snd (sil ! r)"
  shows "skip_silence sil b index = r"
  using assms(1,3)
proof (induction "r - index" arbitrary: index)
  case 0
  then have "index = r" by simp
  then have "\<not> (index < length sil \<and> snd (sil ! index) < b)" using assms(4) by auto
  then have "skip_silence sil b index = index" by (subst skip_silence.simps) auto
  then show ?case using \<open>index = r\<close> by simp
next
  case (Suc n)
  then have lt: "index < r" by simp
  then have c: "index < length sil \<and> snd (sil ! index) < b" using assms(2) Suc.prems(2) by auto
  have "skip_silence sil b (index + 1) = r"
    by (rule Suc.hyps(1)) (use Suc.hyps(2) Suc.prems lt in auto)
  then show ?case using c by (subst skip_silence.simps) simp
qed

lemma skip_silence_from:
  assumes "index \<le> skip_silence sil b 0"
  shows "skip_silence sil b index = skip_silence sil b 0"
proof (rule skip_silence_unique[OF assms])
  show "skip_silence sil b 0 \<le> length sil" using skip_silence_spec[of 0 sil b] by simp
  show "\<forall>j. index \<le> j \<and> j < skip_silence sil b 0 \<longrightarrow> snd (sil ! j) < b"
    using skip_silence_spec[of 0 sil b] by simp
  show "skip_silence sil b 0 < length sil \<longrightarrow> b \<le> snd (sil ! skip_silence sil b 0)"
    using skip_silence_spec[of 0 sil b] by simp
qed

lemma skip_silence_mono:
  assumes "b \<le> b'"
  shows "skip_silence sil b 0 \<le> skip_silence sil b' 0"
proof (rule ccontr)
  assume "\<not> skip_silence sil b 0 \<le> skip_silence sil b' 0"
  then have lt: "skip_silence sil b' 0 < skip_silence sil b 0" by simp
  then have "snd (sil ! skip_silence sil b' 0) < b" using skip_silence_spec[of 0 sil b] by simp
  moreover have "skip_silence sil b' 0 < length sil"
    using lt skip_silence_spec[of 0 sil b] by simp
  then have "b' \<le> snd (sil ! skip_silence sil b' 0)" using skip_silence_spec[of 0 sil b'] by simp
  ultimately show False using assms by simp
qed

text \<open>
  With the pointer not beyond the first silence that ends at or after the start of the
  subtitle, the body of the loop does not depend on the pointer.
\<close>

lemma subtract_segment_from:
  assumes "index \<le> skip_silence sil (start_time s) 0" "start_time s \<le> end_time s"
  shows "subtract_segment sil index s
           = (skip_silence sil (end_time s) 0, snd (subtract_segment sil 0 s))"
proof -
  have i1: "skip_silence sil (start_time s) index = skip_silence sil (start_time s) 0"
    by (rule skip_silence_from[OF assms(1)])
  have "skip_silence sil (start_time s) 0 \<le> skip_silence sil (end_time s) 0"
    by (rule skip_silence_mono[OF assms(2)])
  then have i2: "skip_silence sil (end_time s) (skip_silence sil (start_time s) 0)
                   = skip_silence sil (end_time s) 0"
    by (rule skip_silence_from)
  show ?thesis
    unfolding subtract_segment_def[of sil index s] subtract_segment_def[of sil 0 s] Let_def i1 i2
    by simp
qed

lemma subtract_loop_map:
  assumes "segs_ok segs" "segs \<noteq> [] \<longrightarrow> index \<le> skip_silence sil (start_time (hd segs)) 0"
  shows "subtract_loop sil index segs = map (\<lambda>s. snd (subtract_segment sil 0 s)) segs"
  using assms
proof (induction segs arbitrary: index)
  case Nil
  show ?case by simp
next
  case (Cons s segs)
  have v: "start_time s \<le> end_time s" using Cons.prems(1) by (simp add: segs_ok_def)
  have i: "index \<le> skip_silence sil (start_time s) 0" using Cons.prems(2) by simp
  have e: "subtract_segment sil index s
           = (skip_silence sil (end_time s) 0, snd (subtract_segment sil 0 s))"
    by (rule subtract_segment_from[OF i v])
  have ok: "segs_ok segs" using Cons.prems(1) by (simp add: segs_ok_def)
  have nx: "segs \<noteq> [] \<longrightarrow> skip_silence sil (end_time s) 0 \<le> skip_silence sil (start_time (hd segs)) 0"
  proof
    assume "segs \<noteq> []"
    then have "hd segs \<in> set segs" by simp
    then have "end_time s \<le> start_time (hd segs)" using Cons.prems(1) by (simp add: segs_ok_def)
    then show "skip_silence sil (end_time s) 0 \<le> skip_silence sil (start_time (hd segs)) 0"
      by (rule skip_silence_mono)
  qed
  show ?case using Cons.IH[OF ok nx] e by simp
qed

lemma segs_ok_shrunk:
  assumes "segs_ok segs" "list_all2 shrunk segs segs'"
  shows "segs_ok segs'"
proof -
  have len: "length segs' = length segs" using assms(2) by (simp add: list_all2_lengthD)
  have sh: "\<And>i. i < length segs \<Longrightarrow> shrunk (segs ! i) (segs' ! i)"
    using assms(2) by (simp add: list_all2_conv_all_nth)
  have v: "\<And>i. i < length segs \<Longrightarrow> start_time (segs ! i) \<le> end_time (segs ! i)"
    using assms(1) by (simp add: segs_ok_def list_all_length)
  have o: "\<And>i j. i < j \<Longrightarrow> j < length segs \<Longrightarrow> end_time (segs ! i) \<le> start_time (segs ! j)"
    using assms(1) by (simp add: segs_ok_def sorted_wrt_iff_nth_less)
  have "list_all (\<lambda>s. start_time s \<le> end_time s) segs'"
    unfolding list_all_length using sh v len by (simp add: shrunk_def)
  moreover have "sorted_wrt (\<lambda>a b. end_time a \<le> start_time b) segs'"
    unfolding sorted_wrt_iff_nth_less
  proof (intro allI impI)
    fix i j assume ij: "i < j" and j: "j < length segs'"
    have "end_time (segs' ! i) \<le> end_time (segs ! i)" using sh[of i] ij j len by (simp add: shrunk_def)
    moreover have "end_time (segs ! i) \<le> start_time (segs ! j)" using o ij j len by simp
    moreover have "start_time (segs ! j) \<le> start_time (segs' ! j)" using sh[of j] j len by (simp add: shrunk_def)
    ultimately show "end_time (segs' ! i) \<le> start_time (segs' ! j)" by linarith
  qed
  ultimately show ?thesis by (simp add: segs_ok_def)
qed

lemma subtract_segment_0:
  assumes "start_time s \<le> end_time s"
  shows "snd (subtract_segment sil 0 s)
           = s\<lparr>start_time := sub_start sil (start_time s) (end_time s),
               end_time := sub_end sil (sub_start sil (start_time s) (end_time s)) (end_time s)\<rparr>"
proof -
  have "skip_silence sil (start_time s) 0 \<le> skip_silence sil (end_time s) 0"
    by (rule skip_silence_mono[OF assms])
  then have i2: "skip_silence sil (end_time s) (skip_silence sil (start_time s) 0)
                   = skip_silence sil (end_time s) 0"
    by (rule skip_silence_from)
  show ?thesis
    unfolding subtract_segment_def[of sil 0 s] sub_start_def sub_end_def Let_def i2
    by (simp add: case_prod_beta)
qed

lemma sub_start_bounds:
  "st \<le> sub_start sil st en" "st \<le> en \<Longrightarrow> sub_start sil st en \<le> en"
  by (auto simp: sub_start_def Let_def)

lemma sub_end_bounds:
  "sub_end sil st1 en \<le> en" "st1 \<le> en \<Longrightarrow> st1 \<le> sub_end sil st1 en"
  by (auto simp: sub_end_def Let_def)

lemma sub_start_fixed:
  assumes "en' \<le> en"
  shows "sub_start sil (sub_start sil st en) en' = sub_start sil st en"
proof -
  let ?i = "skip_silence sil st 0"
  show ?thesis
  proof (cases "?i < length sil \<and> fst (sil ! ?i) < st \<and> st < snd (sil ! ?i) \<and> snd (sil ! ?i) < en")
    case True
    then have s1: "sub_start sil st en = snd (sil ! ?i)" by (simp add: sub_start_def)
    have "skip_silence sil (snd (sil ! ?i)) 0 = ?i"
    proof (rule skip_silence_unique)
      show "0 \<le> ?i" by simp
      show "?i \<le> length sil" using True by simp
      show "\<forall>j. 0 \<le> j \<and> j < ?i \<longrightarrow> snd (sil ! j) < snd (sil ! ?i)"
        using skip_silence_spec[of 0 sil st] True by fastforce
      show "?i < length sil \<longrightarrow> snd (sil ! ?i) \<le> snd (sil ! ?i)" by simp
    qed
    then show ?thesis unfolding s1 by (simp add: sub_start_def)
  next
    case False
    then have s1: "sub_start sil st en = st" by (auto simp: sub_start_def)
    show ?thesis unfolding s1 using False assms by (auto simp: sub_start_def)
  qed
qed

lemma sil_ok_nth:
  assumes "sil_ok sil" "i < j" "j < length sil"
  shows "snd (sil ! i) \<le> fst (sil ! j)"
  using assms by (simp add: sil_ok_def sorted_wrt_iff_nth_less)

lemma sub_end_fixed:
  assumes "sil_ok sil"
  shows "sub_end sil st1 (sub_end sil st1 en) = sub_end sil st1 en"
proof -
  let ?i = "skip_silence sil en 0"
  show ?thesis
  proof (cases "?i < length sil \<and> st1 < fst (sil ! ?i) \<and> en < snd (sil ! ?i) \<and> fst (sil ! ?i) < en")
    case True
    then have e1: "sub_end sil st1 en = fst (sil ! ?i)" by (simp add: sub_end_def)
    let ?e = "fst (sil ! ?i)"
    let ?m = "skip_silence sil ?e 0"
    have mi: "?m \<le> ?i" using True by (intro skip_silence_mono) simp
    have "\<not> (?m < length sil \<and> st1 < fst (sil ! ?m) \<and> ?e < snd (sil ! ?m) \<and> fst (sil ! ?m) < ?e)"
    proof (cases "?m = ?i")
      case True
      then show ?thesis by simp
    next
      case False
      then have "?m < ?i" using mi by simp
      then have "snd (sil ! ?m) \<le> ?e" using sil_ok_nth[OF assms] True by simp
      then show ?thesis by simp
    qed
    then have "sub_end sil st1 ?e = ?e"
      unfolding sub_end_def Let_def by (rule if_not_P)
    then show ?thesis unfolding e1 .
  next
    case False
    then have e1: "sub_end sil st1 en = en" by (auto simp: sub_end_def)
    show ?thesis unfolding e1 using False by (auto simp: sub_end_def)
  qed
qed

lemma subtract_segment_0_fixed:
  assumes "sil_ok sil" "start_time s \<le> end_time s"
  shows "snd (subtract_segment sil 0 (snd (subtract_segment sil 0 s))) = snd (subtract_segment sil 0 s)"
proof -
  let ?st = "sub_start sil (start_time s) (end_time s)"
  let ?en = "sub_end sil ?st (end_time s)"
  let ?s' = "s\<lparr>start_time := ?st, end_time := ?en\<rparr>"
  have g: "snd (subtract_segment sil 0 s) = ?s'" by (rule subtract_segment_0[OF assms(2)])
  have le: "?st \<le> end_time s" using sub_start_bounds(2)[OF assms(2)] .
  have v: "start_time ?s' \<le> end_time ?s'" using sub_end_bounds(2)[OF le] by simp
  have a: "sub_start sil ?st ?en = ?st"
    by (rule sub_start_fixed) (rule sub_end_bounds(1))
  have b: "sub_end sil ?st ?en = ?en" by (rule sub_end_fixed[OF assms(1)])
  have "snd (subtract_segment sil 0 ?s')
          = ?s'\<lparr>start_time := sub_start sil (start_time ?s') (end_time ?s'),
               end_time := sub_end sil (sub_start sil (start_time ?s') (end_time ?s')) (end_time ?s')\<rparr>"
    by (rule subtract_segment_0[OF v])
  also have "\<dots> = ?s'" by (simp add: a b)
  finally show ?thesis unfolding g .
qed

lemma subtract_only_map:
  assumes "segs_ok segs"
  shows "subtract_only sil segs = map (\<lambda>s. snd (subtract_segment sil 0 s)) segs"
proof (cases "segs = []")
  case True
  then show ?thesis by (simp add: subtract_only_def)
next
  case False
  have "subtract_loop sil 0 segs = map (\<lambda>s. snd (subtract_segment sil 0 s)) segs"
    by (rule subtract_loop_map[OF assms]) simp
  then show ?thesis using False by (simp add: subtract_only_def)
qed

lemma subtract_only_fixed:
  assumes "sil_ok sil" "segs_ok segs"
  shows "subtract_only sil (subtract_only sil segs) = subtract_only sil segs"
proof -
  let ?g = "\<lambda>s. snd (subtract_segment sil 0 s)"
  have ok': "segs_ok (subtract_only sil segs)"
    by (rule segs_ok_shrunk[OF assms(2)]) (simp add: subtract_only_def subtract_loop_shrunk)
  have m: "subtract_only sil segs = map ?g segs" by (rule subtract_only_map[OF assms(2)])
  have "subtract_only sil (subtract_only sil segs) = map ?g (subtract_only sil segs)"
    by (rule subtract_only_map[OF ok'])
  also have "\<dots> = map (\<lambda>s. ?g (?g s)) segs" unfolding m by (simp add: comp_def)
  also have "\<dots> = map ?g segs"
  proof (rule map_cong)
    fix s assume "s \<in> set segs"
    then have "start_time s \<le> end_time s" using assms(2) by (simp add: segs_ok_def list_all_iff)
    then show "?g (?g s) = ?g s" by (rule subtract_segment_0_fixed[OF assms(1)])
  qed simp
  finally show ?thesis unfolding m .
qed

subsection \<open>Subtract-only mode on separated silences\<close>

lemma sil_apart_nth:
  assumes "sil_apart sil" "i < j" "j < length sil"
  shows "snd (sil ! i) < fst (sil ! j)"
  using assms by (simp add: sil_apart_def sorted_wrt_iff_nth_less)

text \<open>The first loop stops at the same silence for the corrected start.\<close>

lemma skip_silence_cut_start:
  assumes "skip_silence sil st index < length sil"
    and "st < snd (sil ! skip_silence sil st index)"
  shows "skip_silence sil (snd (sil ! skip_silence sil st index)) index = skip_silence sil st index"
proof (rule skip_silence_unique)
  let ?i = "skip_silence sil st index"
  show "index \<le> ?i" using skip_silence_spec[of index sil st] by simp
  show "?i \<le> length sil" using assms(1) by simp
  show "\<forall>j. index \<le> j \<and> j < ?i \<longrightarrow> snd (sil ! j) < snd (sil ! ?i)"
    using skip_silence_spec[of index sil st] assms(2) by fastforce
  show "?i < length sil \<longrightarrow> snd (sil ! ?i) \<le> snd (sil ! ?i)" by simp
qed

text \<open>The second loop stops at the same silence for the corrected end.\<close>

lemma skip_silence_cut_end:
  assumes "sil_apart sil" "skip_silence sil en index < length sil"
    and "fst (sil ! skip_silence sil en index) < en"
    and "en < snd (sil ! skip_silence sil en index)"
  shows "skip_silence sil (fst (sil ! skip_silence sil en index)) index = skip_silence sil en index"
proof (rule skip_silence_unique)
  let ?i = "skip_silence sil en index"
  show "index \<le> ?i" using skip_silence_spec[of index sil en] by simp
  show "?i \<le> length sil" using assms(2) by simp
  show "\<forall>j. index \<le> j \<and> j < ?i \<longrightarrow> snd (sil ! j) < fst (sil ! ?i)"
    using sil_apart_nth[OF assms(1) _ assms(2)] by simp
  show "?i < length sil \<longrightarrow> fst (sil ! ?i) \<le> snd (sil ! ?i)"
    using assms(3,4) by simp
qed

lemma subtract_segment_eq:
  "subtract_segment sil index s =
     (skip_silence sil (end_time s) (skip_silence sil (start_time s) index),
      s\<lparr>start_time := sub_start_at sil index (start_time s) (end_time s),
        end_time := sub_end_at sil (skip_silence sil (start_time s) index)
                      (sub_start_at sil index (start_time s) (end_time s)) (end_time s)\<rparr>)"
  unfolding subtract_segment_def Let_def sub_start_at_def sub_end_at_def
  by (auto simp: case_prod_beta)

lemma subtract_segment_fixed:
  assumes "sil_apart sil"
  shows "subtract_segment sil index (snd (subtract_segment sil index s))
           = subtract_segment sil index s"
proof -
  let ?st = "start_time s" and ?en = "end_time s"
  let ?i1 = "skip_silence sil ?st index"
  let ?c1 = "?i1 < length sil \<and> fst (sil ! ?i1) < ?st \<and> ?st < snd (sil ! ?i1) \<and> snd (sil ! ?i1) < ?en"
  let ?st1 = "sub_start_at sil index ?st ?en"
  let ?i2 = "skip_silence sil ?en ?i1"
  let ?c2 = "?i2 < length sil \<and> ?st1 < fst (sil ! ?i2) \<and> ?en < snd (sil ! ?i2) \<and> fst (sil ! ?i2) < ?en"
  let ?en1 = "sub_end_at sil ?i1 ?st1 ?en"
  let ?s' = "s\<lparr>start_time := ?st1, end_time := ?en1\<rparr>"
  have r: "subtract_segment sil index s = (?i2, ?s')" by (rule subtract_segment_eq)
  have st1: "?st1 = (if ?c1 then snd (sil ! ?i1) else ?st)"
    by (simp add: sub_start_at_def Let_def)
  have en1: "?en1 = (if ?c2 then fst (sil ! ?i2) else ?en)"
    by (simp add: sub_end_at_def Let_def)
  have en_le: "?en1 \<le> ?en" unfolding en1 by simp
  \<comment> \<open>first loop and first test on the corrected record\<close>
  have i1: "skip_silence sil ?st1 index = ?i1"
  proof (cases ?c1)
    case True
    have "skip_silence sil (snd (sil ! ?i1)) index = ?i1"
      by (rule skip_silence_cut_start) (use True in blast)+
    then show ?thesis unfolding st1 if_P[OF True] .
  next
    case False
    show ?thesis unfolding st1 if_not_P[OF False] ..
  qed
  have a: "sub_start_at sil index ?st1 ?en1 = ?st1"
  proof (cases ?c1)
    case True
    have "?st1 = snd (sil ! ?i1)" unfolding st1 if_P[OF True] ..
    then show ?thesis unfolding sub_start_at_def[of sil index ?st1 ?en1] Let_def i1 by simp
  next
    case False
    have e: "?st1 = ?st" unfolding st1 if_not_P[OF False] ..
    have "\<not> (?i1 < length sil \<and> fst (sil ! ?i1) < ?st \<and> ?st < snd (sil ! ?i1)
                \<and> snd (sil ! ?i1) < ?en1)"
      using False en_le by (meson less_le_trans)
    then show ?thesis unfolding sub_start_at_def[of sil index ?st1 ?en1] Let_def i1
      unfolding e by (rule if_not_P)
  qed
  \<comment> \<open>second loop and second test on the corrected record\<close>
  have i2: "skip_silence sil ?en1 ?i1 = ?i2"
  proof (cases ?c2)
    case True
    have "skip_silence sil (fst (sil ! ?i2)) ?i1 = ?i2"
      by (rule skip_silence_cut_end[OF assms]) (use True in blast)+
    then show ?thesis unfolding en1 if_P[OF True] .
  next
    case False
    show ?thesis unfolding en1 if_not_P[OF False] ..
  qed
  have b: "sub_end_at sil ?i1 ?st1 ?en1 = ?en1"
  proof (cases ?c2)
    case True
    have "?en1 = fst (sil ! ?i2)" unfolding en1 if_P[OF True] ..
    then show ?thesis unfolding sub_end_at_def[of sil ?i1 ?st1 ?en1] Let_def i2 by simp
  next
    case False
    have e: "?en1 = ?en" unfolding en1 if_not_P[OF False] ..
    show ?thesis unfolding sub_end_at_def[of sil ?i1 ?st1 ?en1] Let_def i2
      unfolding e using False by (rule if_not_P)
  qed
  have "subtract_segment sil index ?s'
          = (skip_silence sil (end_time ?s') (skip_silence sil (start_time ?s') index),
             ?s'\<lparr>start_time := sub_start_at sil index (start_time ?s') (end_time ?s'),
               end_time := sub_end_at sil (skip_silence sil (start_time ?s') index)
                      (sub_start_at sil index (start_time ?s') (end_time ?s')) (end_time ?s')\<rparr>)"
    by (rule subtract_segment_eq)
  also have "start_time ?s' = ?st1" by simp
  also have "end_time ?s' = ?en1" by simp
  finally have "subtract_segment sil index ?s' = (?i2, ?s'\<lparr>start_time := ?st1, end_time := ?en1\<rparr>)"
    unfolding i1 a i2 b .
  then have "subtract_segment sil index ?s' = (?i2, ?s')" by simp
  then show ?thesis unfolding r by simp
qed

lemma subtract_loop_fixed:
  assumes "sil_apart sil"
  shows "subtract_loop sil index (subtract_loop sil index segs) = subtract_loop sil index segs"
proof (induction segs arbitrary: index)
  case Nil
  show ?case by simp
next
  case (Cons s segs)
  obtain i2 s' where r: "subtract_segment sil index s = (i2, s')"
    by (cases "subtract_segment sil index s")
  have "subtract_segment sil index s' = (i2, s')"
    using subtract_segment_fixed[OF assms, of index s] r by simp
  then show ?case using r Cons.IH[of i2] by simp
qed

lemma subtract_only_apart_fixed:
  assumes "sil_apart sil"
  shows "subtract_only sil (subtract_only sil segs) = subtract_only sil segs"
proof (cases "segs = []")
  case True
  then show ?thesis by (simp add: subtract_only_def)
next
  case False
  then have "subtract_loop sil 0 segs \<noteq> []"
    by (cases segs) (auto simp: case_prod_beta)
  then show ?thesis using False by (simp add: subtract_only_def subtract_loop_fixed[OF assms])
qed

text \<open>The silence segments derived from well-formed events are separated.\<close>

lemma silence_segments_apart:
  assumes "events_ok audio_events"
  shows "sil_apart (silence_segments False min_silence_dur audio_events)"
proof -
  have la: "list_all (\<lambda>(s, e). 0 \<le> s \<and> s < e) audio_events"
    and so: "sorted_wrt (\<lambda>a b. snd a \<le> fst b) audio_events"
    using assms by (simp_all add: events_ok_def)
  have base: "sorted_wrt (\<lambda>a b. snd a < fst b \<and> fst a < fst b)
      (silence_segments False min_silence_dur audio_events)"
    unfolding silence_segments_def
    by (rule silence_loop_sorted) (use la so in \<open>simp_all add: analysis_window_def\<close>)
  show ?thesis unfolding sil_apart_def
    by (rule sorted_wrt_mono_rel[OF _ base]) simp
qed

subsection \<open>Both modes\<close>

text \<open>
  C7 (as amended). Subtract-only mode is idempotent, for any subtitles, whenever each
  silence segment ends strictly before the next one starts, which holds of every silence
  list derived from ordered, non-overlapping audio events; it is idempotent as well when
  the silence segments have positive duration and merely do not overlap, provided the
  subtitles each have \<open>start \<le> end\<close> and follow one another in time without overlap.
  Expand/subtract mode is idempotent on the corrected output of a pass that succeeded,
  the second pass succeeding again and changing no start and no end, when the silence
  segments have positive duration and do not overlap, the subtitles each have
  \<open>start \<le> end\<close> and follow one another in time without overlap, and every silence that
  starts before the start of a subtitle ends before the end of that subtitle.
\<close>

theorem reconciler_idempotent:
  "(sil_apart sil \<longrightarrow> subtract_only sil (subtract_only sil segs) = subtract_only sil segs)
   \<and> (sil_ok sil \<and> segs_ok segs \<longrightarrow>
        subtract_only sil (subtract_only sil segs) = subtract_only sil segs)
   \<and> (events_ok audio_events \<longrightarrow>
        sil_apart (silence_segments False min_silence_dur audio_events))
   \<and> (sil_ok sil \<and> segs_ok segs \<and> ends_after sil segs
        \<and> fst (expand_subtract env sil segs) = None \<longrightarrow>
          fst (expand_subtract env sil (written (snd (expand_subtract env sil segs)))) = None
          \<and> written (snd (expand_subtract env sil (written (snd (expand_subtract env sil segs)))))
              = written (snd (expand_subtract env sil segs)))"
proof (intro conjI impI)
  assume "sil_apart sil"
  then show "subtract_only sil (subtract_only sil segs) = subtract_only sil segs"
    by (rule subtract_only_apart_fixed)
next
  assume "sil_ok sil \<and> segs_ok segs"
  then show "subtract_only sil (subtract_only sil segs) = subtract_only sil segs"
    using subtract_only_fixed by blast
next
  assume "events_ok audio_events"
  then show "sil_apart (silence_segments False min_silence_dur audio_events)"
    by (rule silence_segments_apart)
next
  assume a: "sil_ok sil \<and> segs_ok segs \<and> ends_after sil segs
        \<and> fst (expand_subtract env sil segs) = None"
  then show "fst (expand_subtract env sil (written (snd (expand_subtract env sil segs)))) = None"
    using expand_subtract_idempotent[of sil segs env] by blast
  from a show "written (snd (expand_subtract env sil (written (snd (expand_subtract env sil segs)))))
              = written (snd (expand_subtract env sil segs))"
    using expand_subtract_idempotent[of sil segs env] by blast
qed

text \<open>
  Subtract-only mode on the overlapping subtitles \<open>[1, 10]\<close> and \<open>[2, 8]\<close> with the
  silences \<open>[0, 3]\<close> and \<open>[6, 12]\<close>, and on the silences derived from the events
  \<open>[(1, 2), (5, 6)]\<close>; both modes on the subtitle \<open>[1, 3]\<close> between the silences
  \<open>[0, 2]\<close> and \<open>[6, 7]\<close>.
\<close>

theorem reconciler_idempotent_witness:
  "sil_apart [(0, 3), (6, 12)]
   \<and> subtract_only [(0, 3), (6, 12)]
         [\<lparr>index_of = 1, start_time = 1, end_time = 10, text_of = ''a''\<rparr>,
          \<lparr>index_of = 2, start_time = 2, end_time = 8, text_of = ''b''\<rparr>]
       = [\<lparr>index_of = 1, start_time = 3, end_time = 6, text_of = ''a''\<rparr>,
          \<lparr>index_of = 2, start_time = 2, end_time = 6, text_of = ''b''\<rparr>]
   \<and> subtract_only [(0, 3), (6, 12)]
         [\<lparr>index_of = 1, start_time = 3, end_time = 6, text_of = ''a''\<rparr>,
          \<lparr>index_of = 2, start_time = 2, end_time = 6, text_of = ''b''\<rparr>]
       = [\<lparr>index_of = 1, start_time = 3, end_time = 6, text_of = ''a''\<rparr>,
          \<lparr>index_of = 2, start_time = 2, end_time = 6, text_of = ''b''\<rparr>]
   \<and> events_ok [(1, 2), (5, 6)]
   \<and> sil_apart (silence_segments False (5 / 100) [(1, 2), (5, 6)])
   \<and> sil_ok [(0, 2), (6, 7)]
   \<and> segs_ok [\<lparr>index_of = 1, start_time = 1, end_time = 3, text_of = ''a''\<rparr>]
   \<and> ends_after [(0, 2), (6, 7)] [\<lparr>index_of = 1, start_time = 1, end_time = 3, text_of = ''a''\<rparr>]
   \<and> expand_subtract no_ns_env [(0, 2), (6, 7)]
         [\<lparr>index_of = 1, start_time = 1, end_time = 3, text_of = ''a''\<rparr>]
       = (None, \<lparr>full_list = [Silence_entry 0 2, Segment_entry 2 6 ''a'' 1, Silence_entry 6 7],
                 written = [\<lparr>index_of = 1, start_time = 2, end_time = 6, text_of = ''a''\<rparr>],
                 non_speech_srt_entries = [], non_speech_file_counter = 1\<rparr>)
   \<and> written (snd (expand_subtract no_ns_env [(0, 2), (6, 7)]
         [\<lparr>index_of = 1, start_time = 2, end_time = 6, text_of = ''a''\<rparr>]))
       = [\<lparr>index_of = 1, start_time = 2, end_time = 6, text_of = ''a''\<rparr>]
   \<and> subtract_only [(0, 2), (6, 7)] [\<lparr>index_of = 1, start_time = 1, end_time = 3, text_of = ''a''\<rparr>]
       = [\<lparr>index_of = 1, start_time = 2, end_time = 3, text_of = ''a''\<rparr>]
   \<and> subtract_only [(0, 2), (6, 7)] [\<lparr>index_of = 1, start_time = 2, end_time = 3, text_of = ''a''\<rparr>]
       = [\<lparr>index_of = 1, start_time = 2, end_time = 3, text_of = ''a''\<rparr>]"
proof -
  let ?sil = "[(0, 2), (6, 7)] :: silence_segment list"
  let ?segs = "[\<lparr>index_of = 1, start_time = 1, end_time = 3, text_of = ''a''\<rparr>]"
  let ?sil2 = "[(0, 3), (6, 12)] :: silence_segment list"
  let ?segs2 = "[\<lparr>index_of = 1, start_time = 1, end_time = 10, text_of = ''a''\<rparr>,
          \<lparr>index_of = 2, start_time = 2, end_time = 8, text_of = ''b''\<rparr>]"
  let ?evs = "[(1, 2), (5, 6)] :: audio_event list"
  have a: "sil_ok ?sil" by code_simp
  have b: "segs_ok ?segs" by code_simp
  have c: "ends_after ?sil ?segs" by code_simp
  have d: "expand_subtract no_ns_env ?sil ?segs
       = (None, \<lparr>full_list = [Silence_entry 0 2, Segment_entry 2 6 ''a'' 1, Silence_entry 6 7],
                 written = [\<lparr>index_of = 1, start_time = 2, end_time = 6, text_of = ''a''\<rparr>],
                 non_speech_srt_entries = [], non_speech_file_counter = 1\<rparr>)"
    by code_simp
  have e: "subtract_only ?sil ?segs
       = [\<lparr>index_of = 1, start_time = 2, end_time = 3, text_of = ''a''\<rparr>]"
    by code_simp
  have p: "sil_apart ?sil2" by code_simp
  have q: "subtract_only ?sil2 ?segs2
       = [\<lparr>index_of = 1, start_time = 3, end_time = 6, text_of = ''a''\<rparr>,
          \<lparr>index_of = 2, start_time = 2, end_time = 6, text_of = ''b''\<rparr>]"
    by code_simp
  have v: "events_ok ?evs" by code_simp
  note t = reconciler_idempotent[where sil = ?sil and segs = ?segs and env = no_ns_env
      and audio_events = ?evs and min_silence_dur = "5 / 100"]
  note t2 = reconciler_idempotent[where sil = ?sil2 and segs = ?segs2]
  have q2: "subtract_only ?sil2
         [\<lparr>index_of = 1, start_time = 3, end_time = 6, text_of = ''a''\<rparr>,
          \<lparr>index_of = 2, start_time = 2, end_time = 6, text_of = ''b''\<rparr>]
       = [\<lparr>index_of = 1, start_time = 3, end_time = 6, text_of = ''a''\<rparr>,
          \<lparr>index_of = 2, start_time = 2, end_time = 6, text_of = ''b''\<rparr>]"
    using t2[THEN conjunct1] p unfolding q by blast
  have w: "sil_apart (silence_segments False (5 / 100) ?evs)"
    using t[THEN conjunct2, THEN conjunct2, THEN conjunct1] v by blast
  have f: "subtract_only ?sil [\<lparr>index_of = 1, start_time = 2, end_time = 3, text_of = ''a''\<rparr>]
       = [\<lparr>index_of = 1, start_time = 2, end_time = 3, text_of = ''a''\<rparr>]"
    using t[THEN conjunct2, THEN conjunct1] a b unfolding e by blast
  have "fst (expand_subtract no_ns_env ?sil ?segs) = None" unfolding d by simp
  then have g: "written (snd (expand_subtract no_ns_env ?sil
         (written (snd (expand_subtract no_ns_env ?sil ?segs)))))
                = written (snd (expand_subtract no_ns_env ?sil ?segs))"
    using t[THEN conjunct2, THEN conjunct2, THEN conjunct2] a b c by blast
  have h: "written (snd (expand_subtract no_ns_env ?sil
         [\<lparr>index_of = 1, start_time = 2, end_time = 6, text_of = ''a''\<rparr>]))
       = [\<lparr>index_of = 1, start_time = 2, end_time = 6, text_of = ''a''\<rparr>]"
    using g unfolding d by simp
  from p q q2 v w a b c d e f h show ?thesis by blast
qed

text \<open>
  C7 as stated fails in expand/subtract mode. The subtitle \<open>[1, 3]\<close> lies inside the
  silence \<open>[0, 5]\<close>: the first pass succeeds and leaves its start, because the silence
  does not end before the subtitle's end, and moves its end to 6; the second pass, run on
  that output, now moves the start to 5.
\<close>

theorem reconciler_not_idempotent_counterexample:
  "expand_subtract no_ns_env [(0, 5), (6, 7)]
       [\<lparr>index_of = 1, start_time = 1, end_time = 3, text_of = ''a''\<rparr>]
     = (None, \<lparr>full_list = [Silence_entry 0 5, Segment_entry 1 6 ''a'' 1, Silence_entry 6 7],
               written = [\<lparr>index_of = 1, start_time = 1, end_time = 6, text_of = ''a''\<rparr>],
               non_speech_srt_entries = [], non_speech_file_counter = 1\<rparr>)
   \<and> expand_subtract no_ns_env [(0, 5), (6, 7)]
       [\<lparr>index_of = 1, start_time = 1, end_time = 6, text_of = ''a''\<rparr>]
     = (None, \<lparr>full_list = [Silence_entry 0 5, Segment_entry 5 6 ''a'' 1, Silence_entry 6 7],
               written = [\<lparr>index_of = 1, start_time = 5, end_time = 6, text_of = ''a''\<rparr>],
               non_speech_srt_entries = [], non_speech_file_counter = 1\<rparr>)"
  by code_simp

text \<open>
  Overlapping subtitles break it as well: with the silence \<open>[0, 5]\<close> and the subtitles
  \<open>[1, 10]\<close> and \<open>[2, 8]\<close> the first pass writes \<open>[5, 10]\<close> and \<open>[2, 8]\<close>, and a second
  pass on these writes \<open>[5, 8]\<close> and \<open>[5, 10]\<close>.
\<close>

lemma expand_subtract_overlap_not_idempotent:
  "written (snd (expand_subtract no_ns_env [(0, 5)]
       [\<lparr>index_of = 1, start_time = 1, end_time = 10, text_of = ''a''\<rparr>,
        \<lparr>index_of = 2, start_time = 2, end_time = 8, text_of = ''b''\<rparr>]))
     = [\<lparr>index_of = 1, start_time = 5, end_time = 10, text_of = ''a''\<rparr>,
        \<lparr>index_of = 2, start_time = 2, end_time = 8, text_of = ''b''\<rparr>]
   \<and> written (snd (expand_subtract no_ns_env [(0, 5)]
       [\<lparr>index_of = 1, start_time = 5, end_time = 10, text_of = ''a''\<rparr>,
        \<lparr>index_of = 2, start_time = 2, end_time = 8, text_of = ''b''\<rparr>]))
     = [\<lparr>index_of = 2, start_time = 5, end_time = 8, text_of = ''b''\<rparr>,
        \<lparr>index_of = 1, start_time = 5, end_time = 10, text_of = ''a''\<rparr>]"
  by code_simp

text \<open>
  A silence of no duration breaks it too: with the silence \<open>[1, 1]\<close> the subtitle
  \<open>[2, 3]\<close> becomes \<open>[1, 3]\<close>, and a second pass, which now sorts it before the silence,
  makes it \<open>[1, 1]\<close>.
\<close>

lemma expand_subtract_empty_silence_not_idempotent:
  "written (snd (expand_subtract no_ns_env [(1, 1)]
       [\<lparr>index_of = 1, start_time = 2, end_time = 3, text_of = ''a''\<rparr>]))
     = [\<lparr>index_of = 1, start_time = 1, end_time = 3, text_of = ''a''\<rparr>]
   \<and> written (snd (expand_subtract no_ns_env [(1, 1)]
       [\<lparr>index_of = 1, start_time = 1, end_time = 3, text_of = ''a''\<rparr>]))
     = [\<lparr>index_of = 1, start_time = 1, end_time = 1, text_of = ''a''\<rparr>]"
  by code_simp

text \<open>
  Subtract-only mode is not idempotent on every input either: with the touching silences
  \<open>[1, 3]\<close> and \<open>[3, 5]\<close> and the overlapping subtitles \<open>[0, 4]\<close> and \<open>[2, 6]\<close> the first
  pass ends the first subtitle at 3 and leaves the second, and the second pass, whose
  pointer then stays on the first silence, starts the second subtitle at 3.
\<close>

lemma subtract_only_touching_not_idempotent:
  "subtract_only [(1, 3), (3, 5)]
        [\<lparr>index_of = 1, start_time = 0, end_time = 4, text_of = ''a''\<rparr>,
         \<lparr>index_of = 2, start_time = 2, end_time = 6, text_of = ''b''\<rparr>]
     = [\<lparr>index_of = 1, start_time = 0, end_time = 3, text_of = ''a''\<rparr>,
        \<lparr>index_of = 2, start_time = 2, end_time = 6, text_of = ''b''\<rparr>]
   \<and> subtract_only [(1, 3), (3, 5)]
        [\<lparr>index_of = 1, start_time = 0, end_time = 3, text_of = ''a''\<rparr>,
         \<lparr>index_of = 2, start_time = 2, end_time = 6, text_of = ''b''\<rparr>]
     = [\<lparr>index_of = 1, start_time = 0, end_time = 3, text_of = ''a''\<rparr>,
        \<lparr>index_of = 2, start_time = 3, end_time = 6, text_of = ''b''\<rparr>]"
  by code_simp

end
